theory Spec2Isabelle
  imports Main "HOL-Library.Word" "HOL-Library.Multiset" "HOL-Library.Monad_Syntax"
begin

section \<open>The machine model\<close>

text \<open>
  The routine \<^verbatim>\<open>qsort\<close> of \<^verbatim>\<open>sqlite3/libc/stdlib.h\<close> sorts an untyped buffer in place.
  Its sizes and offsets have the type \<^verbatim>\<open>size_t\<close>: a word of \<open>LENGTH('s)\<close> bits (32 on the
  Wasm target the header is written for), whose arithmetic wraps around. Memory is the
  object that \<^verbatim>\<open>base\<close> points to, a list of bytes; the pointer \<^verbatim>\<open>j + (char *)base\<close> is the
  offset \<open>j\<close>. Reading or writing a byte that the object does not have is undefined
  behaviour, which the model reports as the fault \<open>OutOfBounds\<close>; a false condition of
  \<^verbatim>\<open>__builtin_assume\<close> is undefined behaviour too, the fault \<open>AssumeViolated\<close>.
\<close>

type_synonym byte = "8 word"

datatype fault = OutOfBounds | AssumeViolated

text \<open>
  What a call does besides changing memory is recorded in order: each invocation of the
  comparator with the offsets of its two pointers, and each element swap that follows a
  positive comparison.
\<close>

datatype 'o event = Compare 'o 'o | Swap 'o 'o

record 'o machine =
  mem :: "byte list"
  trace :: "'o event list"

text \<open>
  The comparator is a pure function of the two elements its pointers designate: it reads
  \<^verbatim>\<open>width\<close> bytes at each pointer and returns a C \<^verbatim>\<open>int\<close>, of which \<^verbatim>\<open>qsort\<close> only
  tests the sign. The parameter \<^verbatim>\<open>comp\<close> of the source is written \<open>cmp\<close>, since \<open>comp\<close> is
  the composition of functions in HOL.
\<close>

type_synonym comparator = "byte list \<Rightarrow> byte list \<Rightarrow> int"

definition load_elem :: "byte list \<Rightarrow> 's::len word \<Rightarrow> 's word \<Rightarrow> fault + byte list" where
  "load_elem m a width =
     (if unat a + unat width \<le> length m then Inr (take (unat width) (drop (unat a) m))
      else Inl OutOfBounds)"

subsection \<open>The gap recurrence (line 27 and 28)\<close>

text \<open>
  \<^verbatim>\<open>gap = (5ull * gap - 1) / 11; if (gap == 0) gap = 1;\<close>
  The operand \<^verbatim>\<open>5ull\<close> makes the product, the difference and the quotient 64-bit
  (\<^verbatim>\<open>size_t\<close> has at most 64 bits); the assignment converts the quotient back to
  \<^verbatim>\<open>size_t\<close>.
\<close>

definition next_gap :: "'s::len word \<Rightarrow> 's word" where
  "next_gap gap =
     (let g = (ucast ((5 * (ucast gap :: 64 word) - 1) div 11) :: 's word)
      in if g = 0 then 1 else g)"

subsection \<open>The byte swap (lines 47 to 52)\<close>

text \<open>
  \<^verbatim>\<open>size_t s = width; do { char tmp = *a; *a++ = *b; *b++ = tmp; } while (--s);\<close>
  The body runs before the counter is decremented and tested, so a counter that starts
  at zero wraps around.
\<close>

function swap_bytes :: "'s::len word \<Rightarrow> 's word \<Rightarrow> 's word \<Rightarrow> byte list \<Rightarrow> fault + byte list" where
  "swap_bytes a b s m =
     (if unat a < length m \<and> unat b < length m then
        let tmp = m ! unat a;
            m1 = m[unat a := m ! unat b];
            m2 = m1[unat b := tmp];
            s' = s - 1
        in if s' \<noteq> 0 then swap_bytes (a + 1) (b + 1) s' m2 else Inr m2
      else Inl OutOfBounds)"
  by pat_completeness auto
termination
proof (relation "measure (\<lambda>(a, b, s, m). unat (s - 1))", goal_cases)
  case 1
  show ?case by simp
next
  case (2 a b s m tmp m1 m2 s')
  from \<open>s' \<noteq> 0\<close> have "unat (s' - 1) < unat s'"
    by (simp add: unat_minus_one unat_gt_0)
  with \<open>s' = s - 1\<close> show ?case by simp
qed

declare swap_bytes.simps [simp del]

subsection \<open>The backward walk (lines 41 to 53)\<close>

text \<open>
  \<^verbatim>\<open>for (size_t j = i; !__builtin_sub_overflow(j, wgap, &j);) { ... }\<close>
  The condition subtracts \<^verbatim>\<open>wgap\<close> from \<^verbatim>\<open>j\<close> and leaves the loop when the
  subtraction wraps, that is when \<open>j < wgap\<close>. The loop may run forever (when \<^verbatim>\<open>wgap\<close>
  is zero and the comparator keeps answering positive), so its result is an option.
\<close>

partial_function (option) walk_back ::
  "comparator \<Rightarrow> 's::len word \<Rightarrow> 's word \<Rightarrow> 's word \<Rightarrow> 's word machine \<Rightarrow> (fault + 's word machine) option" where
  "walk_back cmp width wgap j st =
     (if j < wgap then Some (Inr st)
      else
        let j' = j - wgap; a = j'; b = a + wgap in
        case load_elem (mem st) a width of
          Inl e \<Rightarrow> Some (Inl e)
        | Inr x \<Rightarrow>
           (case load_elem (mem st) b width of
              Inl e \<Rightarrow> Some (Inl e)
            | Inr y \<Rightarrow>
               let st1 = st\<lparr>trace := trace st @ [Compare a b]\<rparr> in
               if cmp x y \<le> 0 then Some (Inr st1)
               else
                 (case swap_bytes a b width (mem st1) of
                    Inl e \<Rightarrow> Some (Inl e)
                  | Inr m' \<Rightarrow>
                      walk_back cmp width wgap j'
                        (st1\<lparr>mem := m', trace := trace st1 @ [Swap a b]\<rparr>))))"

subsection \<open>One pass (lines 36 to 54)\<close>

text \<open>\<^verbatim>\<open>for (size_t i = wgap; i < wnel; i += width) { ... }\<close>\<close>

partial_function (option) for_i ::
  "comparator \<Rightarrow> 's::len word \<Rightarrow> 's word \<Rightarrow> 's word \<Rightarrow> 's word \<Rightarrow> 's word machine \<Rightarrow> (fault + 's word machine) option" where
  "for_i cmp width wgap wnel i st =
     (if i < wnel then
        do {
          r \<leftarrow> walk_back cmp width wgap i st;
          case r of
            Inl e \<Rightarrow> Some (Inl e)
          | Inr st' \<Rightarrow> for_i cmp width wgap wnel (i + width) st'
        }
      else Some (Inr st))"

text \<open>
  \<^verbatim>\<open>size_t wgap = width * gap; __builtin_assume(wgap < wnel);\<close> and the loop over \<open>i\<close>.
\<close>

definition pass ::
  "comparator \<Rightarrow> 's::len word \<Rightarrow> 's word \<Rightarrow> 's word \<Rightarrow> 's word machine \<Rightarrow> (fault + 's word machine) option" where
  "pass cmp width wnel gap st =
     (let wgap = width * gap
      in if wgap < wnel then for_i cmp width wgap wnel wgap st
         else Some (Inl AssumeViolated))"

subsection \<open>The outer loop and the routine (lines 21 to 56)\<close>

text \<open>\<^verbatim>\<open>while (gap > 1) { gap = ...; if (gap == 0) gap = 1; ... }\<close>\<close>

partial_function (option) gap_loop ::
  "comparator \<Rightarrow> 's::len word \<Rightarrow> 's word \<Rightarrow> 's word \<Rightarrow> 's word machine \<Rightarrow> (fault + 's word machine) option" where
  "gap_loop cmp width wnel gap st =
     (if 1 < gap then
        let gap' = next_gap gap in
        do {
          r \<leftarrow> pass cmp width wnel gap' st;
          case r of
            Inl e \<Rightarrow> Some (Inl e)
          | Inr st' \<Rightarrow> gap_loop cmp width wnel gap' st'
        }
      else Some (Inr st))"

declare walk_back.simps [code] for_i.simps [code] gap_loop.simps [code]

definition qsort ::
  "byte list \<Rightarrow> 's::len word \<Rightarrow> 's word \<Rightarrow> comparator \<Rightarrow> (fault + 's word machine) option" where
  "qsort base nel width cmp =
     (let wnel = width * nel; gap = nel
      in gap_loop cmp width wnel gap \<lparr>mem = base, trace = []\<rparr>)"

section \<open>The sequence of gaps\<close>

text \<open>
  The quotient of the recurrence is computed in 64 bits and is smaller than the gap it
  comes from, whether or not the product \<open>5 * gap\<close> wraps around; this is what makes the
  sequence of gaps finite.
\<close>

lemma unat_ucast_le: "unat (ucast q :: 's::len word) \<le> unat q"
  for q :: "'b::len word"
  by (simp add: unsigned_ucast_eq take_bit_nat_less_eq_self)

lemma unat_ucast_small: "unat q < 2 ^ LENGTH('s) \<Longrightarrow> unat (ucast q :: 's::len word) = unat q"
  for q :: "'b::len word"
  by (simp add: unsigned_ucast_eq take_bit_nat_eq_self)

lemma gap64_quotient:
  fixes gap :: "'s::len word"
  assumes "1 < unat gap" "5 * unat gap < 2 ^ 64"
  shows "unat ((5 * (ucast gap :: 64 word) - 1) div 11) = (5 * unat gap - 1) div 11"
proof -
  define G where "G = (ucast gap :: 64 word)"
  have G: "unat G = unat gap"
    using assms by (simp add: G_def unat_ucast_small)
  have five: "unat (5 * G) = 5 * unat gap"
    using assms G by (simp add: unat_word_ariths)
  have "1 \<le> 5 * G"
    using five assms by (simp add: word_le_nat_alt)
  then have "unat (5 * G - 1) = 5 * unat gap - 1"
    using five by (simp add: unat_sub)
  then show ?thesis
    by (simp add: unat_div G_def)
qed

lemma gap64_quotient_less:
  fixes gap :: "'s::len word"
  assumes "1 < unat gap"
  shows "unat ((5 * (ucast gap :: 64 word) - 1) div 11) < unat gap"
proof (cases "5 * unat gap < 2 ^ 64")
  case True
  then show ?thesis using assms by (simp add: gap64_quotient)
next
  case False
  have "unat ((5 * (ucast gap :: 64 word) - 1) div 11) = unat (5 * (ucast gap :: 64 word) - 1) div 11"
    by (simp add: unat_div)
  moreover have "unat (5 * (ucast gap :: 64 word) - 1) < 2 ^ 64"
    using unsigned_less [of "5 * (ucast gap :: 64 word) - 1"] by simp
  ultimately show ?thesis using False by simp
qed

lemma next_gap_less: "1 < gap \<Longrightarrow> next_gap gap < gap"
  for gap :: "'s::len word"
proof -
  assume g1: "1 < gap"
  then have u: "1 < unat gap" by (simp add: word_less_nat_alt)
  define q where "q = (5 * (ucast gap :: 64 word) - 1) div 11"
  have "unat (ucast q :: 's word) \<le> unat q" by (rule unat_ucast_le)
  moreover have "unat q < unat gap"
    unfolding q_def using u by (rule gap64_quotient_less)
  ultimately have lt: "unat (ucast q :: 's word) < unat gap" by simp
  show ?thesis
    unfolding next_gap_def Let_def q_def [symmetric]
    using lt g1 by (simp add: word_less_nat_alt)
qed

lemma next_gap_pos: "0 < next_gap gap"
  by (simp add: next_gap_def Let_def word_greater_zero_iff)

text \<open>
  The values that the variable \<^verbatim>\<open>gap\<close> takes in the passes of the outer loop, in order,
  when the loop is entered with the given value.
\<close>

function gap_seq :: "'s::len word \<Rightarrow> 's word list" where
  "gap_seq gap = (if 1 < gap then next_gap gap # gap_seq (next_gap gap) else [])"
  by pat_completeness auto
termination
  by (relation "measure unat") (auto simp: next_gap_less word_less_nat_alt [symmetric])

text \<open>The passes for a list of gaps, one after the other, stopping at the first fault.\<close>

fun run_passes ::
  "comparator \<Rightarrow> 's::len word \<Rightarrow> 's word \<Rightarrow> 's word list \<Rightarrow> 's word machine \<Rightarrow> (fault + 's word machine) option" where
  "run_passes cmp width wnel [] st = Some (Inr st)"
| "run_passes cmp width wnel (g # gs) st =
     do {
       r \<leftarrow> pass cmp width wnel g st;
       case r of
         Inl e \<Rightarrow> Some (Inl e)
       | Inr st' \<Rightarrow> run_passes cmp width wnel gs st'
     }"

section \<open>The buffer as a sequence of elements\<close>

text \<open>
  The first \<open>n\<close> elements of \<open>w\<close> bytes of a memory, and what a valid call is: the width
  is not zero, the byte size \<^verbatim>\<open>width * nel\<close> does not overflow \<^verbatim>\<open>size_t\<close>, and the memory
  holds that many bytes.
\<close>

definition elems :: "nat \<Rightarrow> nat \<Rightarrow> 'a list \<Rightarrow> 'a list list" where
  "elems w n m = map (\<lambda>k. take w (drop (w * k) m)) [0..<n]"

definition valid_call :: "byte list \<Rightarrow> 's::len word \<Rightarrow> 's word \<Rightarrow> bool" where
  "valid_call base nel width \<longleftrightarrow>
     0 < unat width \<and> unat width * unat nel < 2 ^ LENGTH('s) \<and>
     unat width * unat nel \<le> length base"

text \<open>
  A list is in order when the comparator of every adjacent pair is at most 0. The
  comparator is a strict weak ordering on a set of elements when its signs are those of
  a strict partial order (\<open>cmp x y < 0\<close>) whose incomparability (\<open>cmp x y = 0\<close>) is
  transitive.
\<close>

fun ordered_adjacent :: "('a \<Rightarrow> 'a \<Rightarrow> int) \<Rightarrow> 'a list \<Rightarrow> bool" where
  "ordered_adjacent cmp (x # y # ys) = (cmp x y \<le> 0 \<and> ordered_adjacent cmp (y # ys))"
| "ordered_adjacent cmp [x] = True"
| "ordered_adjacent cmp [] = True"

definition strict_weak_ordering :: "('a \<Rightarrow> 'a \<Rightarrow> int) \<Rightarrow> 'a set \<Rightarrow> bool" where
  "strict_weak_ordering cmp S \<longleftrightarrow>
     (\<forall>x\<in>S. \<forall>y\<in>S. (0 < cmp x y) = (cmp y x < 0)) \<and>
     (\<forall>x\<in>S. \<not> cmp x x < 0) \<and>
     (\<forall>x\<in>S. \<forall>y\<in>S. \<forall>z\<in>S. cmp x y < 0 \<and> cmp y z < 0 \<longrightarrow> cmp x z < 0) \<and>
     (\<forall>x\<in>S. \<forall>y\<in>S. \<forall>z\<in>S. cmp x y = 0 \<and> cmp y z = 0 \<longrightarrow> cmp x z = 0)"

definition no_swap :: "'o event list \<Rightarrow> bool" where
  "no_swap tr \<longleftrightarrow> (\<forall>e\<in>set tr. case e of Compare a b \<Rightarrow> True | Swap a b \<Rightarrow> False)"

section \<open>The loops on elements\<close>

text \<open>
  The same loops on a list of elements with indices instead of byte offsets, without
  machine arithmetic or faults. They are what the code computes on a valid call (lemma
  \<open>qsort_result\<close>), and the properties of sorting are proved on them.
\<close>

function walk_elems ::
  "('a \<Rightarrow> 'a \<Rightarrow> int) \<Rightarrow> nat \<Rightarrow> nat \<Rightarrow> 'a list \<times> nat event list \<Rightarrow> 'a list \<times> nat event list" where
  "walk_elems cmp g j (xs, tr) =
     (if j < g \<or> g = 0 then (xs, tr)
      else
        let a = j - g in
        if cmp (xs ! a) (xs ! j) \<le> 0 then (xs, tr @ [Compare a j])
        else walk_elems cmp g a (xs[a := xs ! j, j := xs ! a], tr @ [Compare a j, Swap a j]))"
  by pat_completeness auto
termination
  by (relation "measure (\<lambda>(cmp, g, j, st). j)") auto

function for_elems ::
  "('a \<Rightarrow> 'a \<Rightarrow> int) \<Rightarrow> nat \<Rightarrow> nat \<Rightarrow> nat \<Rightarrow> 'a list \<times> nat event list \<Rightarrow> 'a list \<times> nat event list" where
  "for_elems cmp g n i st =
     (if i < n then for_elems cmp g n (Suc i) (walk_elems cmp g i st) else st)"
  by pat_completeness auto
termination
  by (relation "measure (\<lambda>(cmp, g, n, i, st). n - i)") auto

declare walk_elems.simps [simp del] for_elems.simps [simp del] gap_seq.simps [simp del]

definition sort_elems ::
  "('a \<Rightarrow> 'a \<Rightarrow> int) \<Rightarrow> nat \<Rightarrow> nat list \<Rightarrow> 'a list \<times> nat event list \<Rightarrow> 'a list \<times> nat event list" where
  "sort_elems cmp n gs st = fold (\<lambda>g. for_elems cmp g n g) gs st"

definition qsort_elems ::
  "('a \<Rightarrow> 'a \<Rightarrow> int) \<Rightarrow> 's::len word \<Rightarrow> 'a list \<Rightarrow> 'a list \<times> nat event list" where
  "qsort_elems cmp nel xs = sort_elems cmp (unat nel) (map unat (gap_seq nel)) (xs, [])"

definition offset_event :: "nat \<Rightarrow> nat event \<Rightarrow> 's::len word event" where
  "offset_event w = map_event (\<lambda>k. of_nat (w * k))"

definition sim :: "nat \<Rightarrow> nat \<Rightarrow> 's::len word machine \<Rightarrow> byte list list \<times> nat event list \<Rightarrow> bool" where
  "sim w n st ab \<longleftrightarrow>
     elems w n (mem st) = fst ab \<and> trace st = map (offset_event w) (snd ab)"

definition frame :: "nat \<Rightarrow> 's word machine \<Rightarrow> 's word machine \<Rightarrow> bool" where
  "frame k st st' \<longleftrightarrow> length (mem st') = length (mem st) \<and> drop k (mem st') = drop k (mem st)"


section \<open>Inputs of the examples\<close>

text \<open>
  32-bit integers in the byte order of the Wasm target (little endian), with the usual
  three-way comparator of two \<^verbatim>\<open>int32_t\<close>; and two-byte records compared by their first
  byte only.
\<close>

definition le32 :: "32 word \<Rightarrow> byte list" where
  "le32 x = map (\<lambda>k. ucast (drop_bit (8 * k) x)) [0, 1, 2, 3]"

definition int32_of :: "byte list \<Rightarrow> int" where
  "int32_of bs = sint (word_rcat (rev bs) :: 32 word)"

definition cmp_int32 :: comparator where
  "cmp_int32 x y =
     (if int32_of x < int32_of y then - 1 else if int32_of y < int32_of x then 1 else 0)"

definition example_input :: "byte list" where
  "example_input = concat (map le32 [5, 3, 8, 1, 9, 2])"

definition sevens_input :: "byte list" where
  "sevens_input = concat (map le32 [7, 7, 7, 7])"

definition cmp_key :: comparator where
  "cmp_key x y = uint (hd x) - uint (hd y)"

definition tagged_input :: "byte list" where
  "tagged_input = [1, 10, 1, 11, 0, 12, 2, 13, 2, 14]"

section \<open>Properties of the gap sequence\<close>

lemma next_gap_formula:
  fixes gap :: "'s::len word"
  assumes "1 < gap" "5 * unat gap < 2 ^ 64"
  shows "unat (next_gap gap) = max 1 ((5 * unat gap - 1) div 11)"
proof -
  from assms(1) have u: "1 < unat gap" by (simp add: word_less_nat_alt)
  define q where "q = (5 * (ucast gap :: 64 word) - 1) div 11"
  have q: "unat q = (5 * unat gap - 1) div 11"
    unfolding q_def using u assms(2) by (rule gap64_quotient)
  then have "unat q < unat gap" using u by simp
  then have "unat q < 2 ^ LENGTH('s)"
    using unsigned_less [of gap] by (simp add: order_less_trans)
  then have "unat (ucast q :: 's word) = unat q" by (rule unat_ucast_small)
  then show ?thesis
    unfolding next_gap_def Let_def q_def [symmetric]
    using q by (auto simp: unat_eq_0 [symmetric] simp del: unat_eq_0)
qed

lemma next_gap_half: "1 < gap \<Longrightarrow> 2 * unat (next_gap gap) \<le> unat gap"
  for gap :: "'s::len word"
proof -
  assume g1: "1 < gap"
  then have u: "1 < unat gap" by (simp add: word_less_nat_alt)
  define q where "q = (5 * (ucast gap :: 64 word) - 1) div 11"
  have le: "unat (ucast q :: 's word) \<le> unat q" by (rule unat_ucast_le)
  have "2 * unat q \<le> unat gap"
  proof (cases "5 * unat gap < 2 ^ 64")
    case True
    then have "unat q = (5 * unat gap - 1) div 11"
      unfolding q_def using u by (simp add: gap64_quotient)
    then show ?thesis by simp
  next
    case False
    have "unat q = unat (5 * (ucast gap :: 64 word) - 1) div 11"
      by (simp add: q_def unat_div)
    moreover have "unat (5 * (ucast gap :: 64 word) - 1) < 2 ^ 64"
      using unsigned_less [of "5 * (ucast gap :: 64 word) - 1"] by simp
    ultimately show ?thesis using False by simp
  qed
  then have "2 * unat (ucast q :: 's word) \<le> unat gap" using le by simp
  then show ?thesis
    unfolding next_gap_def Let_def q_def [symmetric] using u by simp
qed

lemma gap_seq_length_aux: "unat gap < 2 ^ k \<Longrightarrow> length (gap_seq gap) \<le> k"
proof (induction k arbitrary: gap)
  case 0
  then have "\<not> 1 < gap" by (simp add: word_less_nat_alt)
  then show ?case by (subst gap_seq.simps) simp
next
  case (Suc k)
  show ?case
  proof (cases "1 < gap")
    case True
    then have "2 * unat (next_gap gap) \<le> unat gap" by (rule next_gap_half)
    then have "unat (next_gap gap) < 2 ^ k" using Suc.prems by simp
    then have "length (gap_seq (next_gap gap)) \<le> k" by (rule Suc.IH)
    then show ?thesis using True by (subst gap_seq.simps) simp
  next
    case False
    then show ?thesis by (subst gap_seq.simps) simp
  qed
qed

lemma gap_seq_length: "length (gap_seq gap) \<le> LENGTH('s)"
  for gap :: "'s::len word"
  using unsigned_less [of gap] by (intro gap_seq_length_aux) simp

lemma gap_seq_less: "g \<in> set (gap_seq gap) \<Longrightarrow> 0 < g \<and> g < gap"
proof (induction gap rule: gap_seq.induct)
  case (1 gap)
  show ?case
  proof (cases "1 < gap")
    case True
    then have "gap_seq gap = next_gap gap # gap_seq (next_gap gap)"
      by (subst gap_seq.simps) simp
    then consider "g = next_gap gap" | "g \<in> set (gap_seq (next_gap gap))"
      using "1.prems" by auto
    then show ?thesis
    proof cases
      case 1
      then show ?thesis using True next_gap_less next_gap_pos by blast
    next
      case 2
      then have "0 < g \<and> g < next_gap gap" using "1.IH" True by blast
      then show ?thesis using next_gap_less [OF True] by (auto intro: less_trans)
    qed
  next
    case False
    then have "gap_seq gap = []" by (subst gap_seq.simps) simp
    then show ?thesis using "1.prems" by simp
  qed
qed

lemma gap_seq_decreasing: "sorted_wrt (\<lambda>a b. b < a) (gap # gap_seq gap)"
proof (induction gap rule: gap_seq.induct)
  case (1 gap)
  show ?case
  proof (cases "1 < gap")
    case True
    then have "sorted_wrt (\<lambda>a b. b < a) (next_gap gap # gap_seq (next_gap gap))"
      by (rule "1.IH")
    moreover have "gap_seq gap = next_gap gap # gap_seq (next_gap gap)"
      using True by (subst gap_seq.simps) simp
    ultimately show ?thesis using gap_seq_less [of _ gap] by auto
  next
    case False
    then have "gap_seq gap = []" by (subst gap_seq.simps) simp
    then show ?thesis by simp
  qed
qed

lemma gap_seq_last: "1 < gap \<Longrightarrow> \<exists>gs. gap_seq gap = gs @ [1]"
proof (induction gap rule: gap_seq.induct)
  case (1 gap)
  have unf: "gap_seq gap = next_gap gap # gap_seq (next_gap gap)"
    using "1.prems" by (subst gap_seq.simps) simp
  show ?case
  proof (cases "1 < next_gap gap")
    case True
    then obtain gs where "gap_seq (next_gap gap) = gs @ [1]"
      using "1.IH" "1.prems" by blast
    then have "gap_seq gap = (next_gap gap # gs) @ [1]" using unf by simp
    then show ?thesis by blast
  next
    case False
    moreover have "0 < next_gap gap" by (rule next_gap_pos)
    ultimately have one: "next_gap gap = 1"
      by (metis word_less_nat_alt unat_1 unat_0 word_unat_eq_iff less_one not_less_iff_gr_or_eq Suc_lessI One_nat_def)
    then have "gap_seq (next_gap gap) = []" by (subst gap_seq.simps) simp
    then have "gap_seq gap = [] @ [1]" using unf one by simp
    then show ?thesis by blast
  qed
qed

lemma gap_loop_passes:
  "gap_loop cmp width wnel gap st = run_passes cmp width wnel (gap_seq gap) st"
proof (induction gap arbitrary: st rule: gap_seq.induct)
  case (1 gap)
  show ?case
  proof (cases "1 < gap")
    case True
    then have "gap_seq gap = next_gap gap # gap_seq (next_gap gap)"
      by (subst gap_seq.simps) simp
    then show ?thesis
      using True 1 by (subst gap_loop.simps) (simp add: Let_def cong: Option.bind_cong sum.case_cong)
  next
    case False
    then have "gap_seq gap = []" by (subst gap_seq.simps) simp
    then show ?thesis using False by (subst gap_loop.simps) simp
  qed
qed

section \<open>Bytes and elements\<close>

lemma swap_bytes_nth:
  fixes a b s :: "'s::len word"
  assumes "unat s = t" "0 < t" "unat a + t \<le> unat b" "unat b + t \<le> length m"
    "unat b + t \<le> 2 ^ LENGTH('s)"
  shows "\<exists>m'. swap_bytes a b s m = Inr m' \<and> length m' = length m \<and>
           (\<forall>i < length m. m' ! i =
              (if unat a \<le> i \<and> i < unat a + t then m ! (i - unat a + unat b)
               else if unat b \<le> i \<and> i < unat b + t then m ! (i - unat b + unat a)
               else m ! i))"
  using assms
proof (induction t arbitrary: a b s m)
  case 0
  then show ?case by simp
next
  case (Suc t)
  define m2 where "m2 = (m[unat a := m ! unat b])[unat b := m ! unat a]"
  have inb: "unat a < length m" "unat b < length m" "unat a < unat b"
    using Suc.prems by simp_all
  have len2: "length m2 = length m" by (simp add: m2_def)
  have s0: "s \<noteq> 0" using Suc.prems(1) by (auto simp: unat_eq_0 [symmetric] simp del: unat_eq_0)
  have us: "unat (s - 1) = t" using Suc.prems(1) s0 by (simp add: unat_minus_one)
  have step: "swap_bytes a b s m = (if s - 1 \<noteq> 0 then swap_bytes (a + 1) (b + 1) (s - 1) m2 else Inr m2)"
    by (subst swap_bytes.simps) (simp add: inb m2_def Let_def)
  have m2_nth: "\<And>i. i < length m \<Longrightarrow> m2 ! i = (if i = unat a then m ! unat b else if i = unat b then m ! unat a else m ! i)"
    using inb by (auto simp: m2_def nth_list_update)
  show ?case
  proof (cases "t = 0")
    case True
    then have "s - 1 = 0" using us by (simp add: unat_eq_0 [symmetric] del: unat_eq_0)
    then have "swap_bytes a b s m = Inr m2" using step by simp
    moreover have "\<forall>i < length m. m2 ! i =
              (if unat a \<le> i \<and> i < unat a + Suc t then m ! (i - unat a + unat b)
               else if unat b \<le> i \<and> i < unat b + Suc t then m ! (i - unat b + unat a)
               else m ! i)"
      using True inb by (auto simp: m2_nth)
    ultimately show ?thesis using len2 by simp
  next
    case False
    then have s1: "s - 1 \<noteq> 0" using us by auto
    have ub: "unat (b + 1) = unat b + 1"
      using Suc.prems(5) False by (simp add: unat_add_lem [THEN iffD1])
    have ua: "unat (a + 1) = unat a + 1"
      using Suc.prems(5) inb(3) by (simp add: unat_add_lem [THEN iffD1])
    have "\<exists>m'. swap_bytes (a + 1) (b + 1) (s - 1) m2 = Inr m' \<and> length m' = length m2 \<and>
           (\<forall>i < length m2. m' ! i =
              (if unat (a + 1) \<le> i \<and> i < unat (a + 1) + t then m2 ! (i - unat (a + 1) + unat (b + 1))
               else if unat (b + 1) \<le> i \<and> i < unat (b + 1) + t then m2 ! (i - unat (b + 1) + unat (a + 1))
               else m2 ! i))"
      using Suc.prems False us ua ub len2 by (intro Suc.IH) simp_all
    then obtain m' where m': "swap_bytes (a + 1) (b + 1) (s - 1) m2 = Inr m'" "length m' = length m"
      and nth: "\<And>i. i < length m \<Longrightarrow> m' ! i =
              (if unat a + 1 \<le> i \<and> i < unat a + 1 + t then m2 ! (i - (unat a + 1) + (unat b + 1))
               else if unat b + 1 \<le> i \<and> i < unat b + 1 + t then m2 ! (i - (unat b + 1) + (unat a + 1))
               else m2 ! i)"
      unfolding ua ub len2 by blast
    have "swap_bytes a b s m = Inr m'" using step s1 m' by simp
    moreover have "\<forall>i < length m. m' ! i =
              (if unat a \<le> i \<and> i < unat a + Suc t then m ! (i - unat a + unat b)
               else if unat b \<le> i \<and> i < unat b + Suc t then m ! (i - unat b + unat a)
               else m ! i)"
    proof (intro allI impI)
      fix i assume i: "i < length m"
      have le: "unat a + Suc t \<le> unat b" "unat b + Suc t \<le> length m" using Suc.prems by simp_all
      consider "i < unat a" | "i = unat a" | "unat a < i" "i < unat a + Suc t"
        | "unat a + Suc t \<le> i" "i < unat b" | "i = unat b" | "unat b < i" "i < unat b + Suc t"
        | "unat b + Suc t \<le> i" by linarith
      then show "m' ! i =
              (if unat a \<le> i \<and> i < unat a + Suc t then m ! (i - unat a + unat b)
               else if unat b \<le> i \<and> i < unat b + Suc t then m ! (i - unat b + unat a)
               else m ! i)"
      proof cases
        case 1 then show ?thesis using i le by (simp add: nth m2_nth)
      next
        case 2 then show ?thesis using i le by (simp add: nth m2_nth)
      next
        case 3
        then have "i - (unat a + 1) + (unat b + 1) = i - unat a + unat b" by simp
        moreover have "i - unat a + unat b < length m" "i - unat a + unat b \<noteq> unat a" "i - unat a + unat b \<noteq> unat b"
          using 3 le by simp_all
        ultimately show ?thesis using 3 i le by (simp add: nth m2_nth)
      next
        case 4 then show ?thesis using i le by (simp add: nth m2_nth)
      next
        case 5 then show ?thesis using i le by (simp add: nth m2_nth)
      next
        case 6
        then have "i - (unat b + 1) + (unat a + 1) = i - unat b + unat a" by simp
        moreover have "i - unat b + unat a < length m" "i - unat b + unat a \<noteq> unat a" "i - unat b + unat a \<noteq> unat b"
          using 6 le by simp_all
        ultimately show ?thesis using 6 i le by (simp add: nth m2_nth)
      next
        case 7 then show ?thesis using i le by (simp add: nth m2_nth)
      qed
    qed
    ultimately show ?thesis using m'(2) by simp
  qed
qed

lemma length_elems [simp]: "length (elems w n m) = n"
  by (simp add: elems_def)

lemma elems_nth: "k < n \<Longrightarrow> elems w n m ! k = take w (drop (w * k) m)"
  by (simp add: elems_def)

lemma block_le: "k < n \<Longrightarrow> w * k + w \<le> w * (n::nat)"
proof -
  assume "k < n"
  then have "w * Suc k \<le> w * n" by (intro mult_le_mono2) simp
  then show ?thesis by simp
qed

lemma block_index:
  assumes "i < w" "w * k \<le> w * t + i" "w * t + i < w * k + (w::nat)"
  shows "t = k"
proof (rule ccontr)
  assume "t \<noteq> k"
  then consider "t < k" | "k < t" by linarith
  then show False
  proof cases
    case 1
    then have "w * t + w \<le> w * k" using block_le by simp
    then show False using assms by simp
  next
    case 2
    then have "w * k + w \<le> w * t" using block_le by simp
    then show False using assms by simp
  qed
qed

lemma length_elems_nth:
  assumes "w * n \<le> length m" "k < n"
  shows "length (elems w n m ! k) = w"
proof -
  have "w * k + w \<le> length m" using assms block_le [of k n w] by simp
  then show ?thesis using assms by (simp add: elems_nth)
qed

lemma elems_nth_nth:
  assumes "w * n \<le> length m" "k < n" "i < w"
  shows "elems w n m ! k ! i = m ! (w * k + i)"
proof -
  have "w * k + w \<le> length m" using assms block_le [of k n w] by simp
  then show ?thesis using assms by (simp add: elems_nth)
qed

lemma elems_eqI:
  assumes "w * n \<le> length m" "w * n \<le> length m'"
    and "\<And>k i. k < n \<Longrightarrow> i < w \<Longrightarrow> m' ! (w * k + i) = f k ! i"
    and "length xs = n" "\<And>k. k < n \<Longrightarrow> xs ! k = f k" "\<And>k. k < n \<Longrightarrow> length (f k) = w"
  shows "elems w n m' = xs"
proof (rule nth_equalityI)
  show "length (elems w n m') = length xs" using assms by simp
next
  fix k assume "k < length (elems w n m')"
  then have k: "k < n" by simp
  show "elems w n m' ! k = xs ! k"
  proof (rule nth_equalityI)
    show "length (elems w n m' ! k) = length (xs ! k)"
      using assms k by (simp add: length_elems_nth)
  next
    fix i assume "i < length (elems w n m' ! k)"
    then have "i < w" using assms k by (simp add: length_elems_nth)
    then show "elems w n m' ! k ! i = xs ! k ! i"
      using assms k by (simp add: elems_nth_nth)
  qed
qed

lemma elems_take: "elems w n (take (w * n) m) = elems w n m"
proof -
  have "take w (drop (w * k) (take (w * n) m)) = take w (drop (w * k) m)" if "k < n" for k
  proof -
    have "w * k + w \<le> w * n" using that by (rule block_le)
    then have "min w (w * n - w * k) = w" by simp
    then show ?thesis by (simp add: drop_take)
  qed
  then show ?thesis by (simp add: elems_def)
qed

lemma concat_elems: "w * n \<le> length m \<Longrightarrow> concat (elems w n m) = take (w * n) m"
proof (induction n)
  case 0
  then show ?case by (simp add: elems_def)
next
  case (Suc n)
  then have "concat (elems w n m) = take (w * n) m" by simp
  moreover have "elems w (Suc n) m = elems w n m @ [take w (drop (w * n) m)]"
    by (simp add: elems_def)
  moreover have "take (w * n) m @ take w (drop (w * n) m) = take (w * n + w) m"
    by (simp add: take_add)
  ultimately show ?case by (simp add: add.commute)
qed

lemma mem_split:
  "w * n \<le> length m \<Longrightarrow> m = concat (elems w n m) @ drop (w * n) m"
  by (simp add: concat_elems)

lemma mem_eqI:
  assumes "w * n \<le> length m" "length m' = length m" "drop (w * n) m' = drop (w * n) m"
    "elems w n m' = elems w n m"
  shows "m' = m"
proof -
  have "m' = concat (elems w n m') @ drop (w * n) m'" using assms by (intro mem_split) simp
  also have "\<dots> = concat (elems w n m) @ drop (w * n) m" using assms by simp
  also have "\<dots> = m" using assms(1) by (rule mem_split [symmetric])
  finally show ?thesis .
qed

lemma swap_bytes_elems:
  fixes a b width :: "'s::len word"
  assumes w: "0 < w" "unat width = w" and n: "w * n \<le> length m" "w * n \<le> 2 ^ LENGTH('s)"
    and kl: "k < l" "l < n" and ab: "unat a = w * k" "unat b = w * l"
  shows "\<exists>m'. swap_bytes a b width m = Inr m' \<and> length m' = length m \<and>
           drop (w * n) m' = drop (w * n) m \<and>
           elems w n m' = (elems w n m)[k := elems w n m ! l, l := elems w n m ! k]"
proof -
  have kl': "w * k + w \<le> w * l" "w * l + w \<le> w * n"
    using kl block_le by simp_all
  have "\<exists>m'. swap_bytes a b width m = Inr m' \<and> length m' = length m \<and>
           (\<forall>i < length m. m' ! i =
              (if unat a \<le> i \<and> i < unat a + w then m ! (i - unat a + unat b)
               else if unat b \<le> i \<and> i < unat b + w then m ! (i - unat b + unat a)
               else m ! i))"
    using w n kl' ab by (intro swap_bytes_nth) simp_all
  then obtain m' where m': "swap_bytes a b width m = Inr m'" "length m' = length m"
    and nth: "\<And>i. i < length m \<Longrightarrow> m' ! i =
              (if w * k \<le> i \<and> i < w * k + w then m ! (i - w * k + w * l)
               else if w * l \<le> i \<and> i < w * l + w then m ! (i - w * l + w * k)
               else m ! i)"
    unfolding ab by blast
  have "drop (w * n) m' = drop (w * n) m"
    using m'(2) kl' n by (intro nth_equalityI) (simp_all add: nth)
  moreover have "elems w n m' = (elems w n m)[k := elems w n m ! l, l := elems w n m ! k]"
  proof (rule elems_eqI [where m = m and f = "\<lambda>t. if t = l then elems w n m ! k else if t = k then elems w n m ! l else elems w n m ! t"])
    show "w * n \<le> length m" "w * n \<le> length m'" using n m' by simp_all
  next
    fix t i assume t: "t < n" and i: "i < w"
    have lt: "w * t + i < length m" using block_le [OF t, of w] i n by simp
    consider "t = k" | "t = l" | "t \<noteq> k" "t \<noteq> l" by blast
    then show "m' ! (w * t + i) = (if t = l then elems w n m ! k else if t = k then elems w n m ! l else elems w n m ! t) ! i"
    proof cases
      case 1
      then show ?thesis using kl i n lt by (simp add: nth elems_nth_nth add.commute)
    next
      case 2
      then show ?thesis using kl kl' i n lt by (simp add: nth elems_nth_nth add.commute)
    next
      case 3
      then have "\<not> (w * k \<le> w * t + i \<and> w * t + i < w * k + w)" "\<not> (w * l \<le> w * t + i \<and> w * t + i < w * l + w)"
        using block_index [OF i] by blast+
      then have "m' ! (w * t + i) = m ! (w * t + i)"
        using nth [OF lt] by presburger
      then show ?thesis using 3 t i n by (simp add: elems_nth_nth)
    qed
  next
    show "length ((elems w n m)[k := elems w n m ! l, l := elems w n m ! k]) = n" by simp
  next
    fix t assume "t < n"
    then show "(elems w n m)[k := elems w n m ! l, l := elems w n m ! k] ! t =
      (if t = l then elems w n m ! k else if t = k then elems w n m ! l else elems w n m ! t)"
      using kl by (simp add: nth_list_update)
  next
    fix t assume "t < n"
    then show "length (if t = l then elems w n m ! k else if t = k then elems w n m ! l else elems w n m ! t) = w"
      using kl n by (simp add: length_elems_nth)
  qed
  ultimately show ?thesis using m' by blast
qed

lemma load_elem_elems:
  fixes a width :: "'s::len word"
  assumes "unat width = w" "w * n \<le> length m" "k < n" "unat a = w * k"
  shows "load_elem m a width = Inr (elems w n m ! k)"
proof -
  have "w * k + w \<le> length m" using assms block_le [of k n w] by simp
  then show ?thesis using assms by (simp add: load_elem_def elems_nth)
qed

section \<open>The code computes the loops on elements\<close>

lemma frame_refl: "frame k st st"
  by (simp add: frame_def)

lemma frame_trans: "frame k st st' \<Longrightarrow> frame k st' st'' \<Longrightarrow> frame k st st''"
  by (simp add: frame_def)

lemma walk_back_refines:
  fixes width wgap j :: "'s::len word"
  assumes "0 < w" "unat width = w" "w * n < 2 ^ LENGTH('s)" "0 < g" "unat wgap = w * g"
    and "w * n \<le> length (mem st)" "unat j = w * jj" "jj < n" "sim w n st ab"
  shows "\<exists>st'. walk_back cmp width wgap j st = Some (Inr st') \<and> frame (w * n) st st' \<and>
           sim w n st' (walk_elems cmp g jj ab)"
  using assms(6-)
proof (induction jj arbitrary: j st ab rule: less_induct)
  case (less jj)
  note n = less.prems(1) and uj = less.prems(2) and jn = less.prems(3) and sm = less.prems(4)
  note w = \<open>0 < w\<close> \<open>unat width = w\<close> and g = \<open>0 < g\<close> \<open>unat wgap = w * g\<close>
  obtain xs tr where ab: "ab = (xs, tr)" by (cases ab)
  have xs: "elems w n (mem st) = xs" and tr: "trace st = map (offset_event w) tr"
    using sm by (simp_all add: sim_def ab)
  show ?case
  proof (cases "jj < g")
    case True
    then have "w * jj < w * g" using \<open>0 < w\<close> by simp
    then have "j < wgap" using uj g by (simp add: word_less_nat_alt)
    then have "walk_back cmp width wgap j st = Some (Inr st)"
      by (subst walk_back.simps) simp
    moreover have "walk_elems cmp g jj ab = ab"
      unfolding ab using True by (subst walk_elems.simps) simp
    ultimately show ?thesis using sm by (simp add: frame_refl)
  next
    case False
    then have ge: "w * g \<le> w * jj" by simp
    then have nlt: "\<not> j < wgap" and le: "wgap \<le> j"
      using uj g False by (simp_all add: word_less_nat_alt word_le_nat_alt)
    define a where "a = j - wgap"
    have ua: "unat a = w * (jj - g)"
      using le uj g by (simp add: a_def unat_sub right_diff_distrib')
    have b: "a + wgap = j" by (simp add: a_def)
    have k: "jj - g < jj" "jj - g < n" using False g jn by simp_all
    have lx: "load_elem (mem st) a width = Inr (xs ! (jj - g))"
      using load_elem_elems [OF \<open>unat width = w\<close> n k(2) ua] xs by simp
    have ly: "load_elem (mem st) j width = Inr (xs ! jj)"
      using load_elem_elems [OF \<open>unat width = w\<close> n jn uj] xs by simp
    define st1 where "st1 = st\<lparr>trace := trace st @ [Compare a j]\<rparr>"
    have ev: "offset_event w (Compare (jj - g) jj) = (Compare a j :: 's word event)"
      "offset_event w (Swap (jj - g) jj) = (Swap a j :: 's word event)"
    proof -
      have "(of_nat (w * (jj - g)) :: 's word) = a" "(of_nat (w * jj) :: 's word) = j"
        unfolding ua [symmetric] uj [symmetric] by simp_all
      then show "offset_event w (Compare (jj - g) jj) = (Compare a j :: 's word event)"
        "offset_event w (Swap (jj - g) jj) = (Swap a j :: 's word event)"
        by (simp_all add: offset_event_def)
    qed
    show ?thesis
    proof (cases "cmp (xs ! (jj - g)) (xs ! jj) \<le> 0")
      case True
      have "walk_back cmp width wgap j st = Some (Inr st1)"
        by (subst walk_back.simps) (simp add: nlt Let_def b lx ly True st1_def flip: a_def)
      moreover have "walk_elems cmp g jj ab = (xs, tr @ [Compare (jj - g) jj])"
        unfolding ab using False \<open>0 < g\<close> True by (subst walk_elems.simps) (simp add: Let_def)
      moreover have "sim w n st1 (xs, tr @ [Compare (jj - g) jj])"
        using xs tr ev by (simp add: sim_def st1_def)
      moreover have "frame (w * n) st st1" by (simp add: frame_def st1_def)
      ultimately show ?thesis by simp
    next
      case gt: False
      have "\<exists>m'. swap_bytes a j width (mem st) = Inr m' \<and> length m' = length (mem st) \<and>
           drop (w * n) m' = drop (w * n) (mem st) \<and>
           elems w n m' = (elems w n (mem st))[jj - g := elems w n (mem st) ! jj, jj := elems w n (mem st) ! (jj - g)]"
        using w assms(3) n k jn uj ua by (intro swap_bytes_elems) simp_all
      then obtain m' where m': "swap_bytes a j width (mem st) = Inr m'" "length m' = length (mem st)"
        "drop (w * n) m' = drop (w * n) (mem st)"
        "elems w n m' = xs[jj - g := xs ! jj, jj := xs ! (jj - g)]"
        unfolding xs by blast
      define st2 where "st2 = st1\<lparr>mem := m', trace := trace st1 @ [Swap a j]\<rparr>"
      have unf: "walk_back cmp width wgap j st = walk_back cmp width wgap a st2"
        by (subst walk_back.simps)
          (simp add: nlt Let_def b lx ly gt st1_def st2_def m' flip: a_def)
      have el: "walk_elems cmp g jj ab =
          walk_elems cmp g (jj - g) (xs[jj - g := xs ! jj, jj := xs ! (jj - g)], tr @ [Compare (jj - g) jj, Swap (jj - g) jj])"
        unfolding ab using False \<open>0 < g\<close> gt by (subst walk_elems.simps) (simp add: Let_def)
      have sim2: "sim w n st2 (xs[jj - g := xs ! jj, jj := xs ! (jj - g)], tr @ [Compare (jj - g) jj, Swap (jj - g) jj])"
        using m' tr ev by (simp add: sim_def st2_def st1_def)
      have fr2: "frame (w * n) st st2" using m' by (simp add: frame_def st2_def st1_def)
      have n2: "w * n \<le> length (mem st2)" using n m' by (simp add: st2_def)
      have "\<exists>st'. walk_back cmp width wgap a st2 = Some (Inr st') \<and> frame (w * n) st2 st' \<and>
           sim w n st' (walk_elems cmp g (jj - g) (xs[jj - g := xs ! jj, jj := xs ! (jj - g)], tr @ [Compare (jj - g) jj, Swap (jj - g) jj]))"
        using k n2 ua sim2 by (intro less.IH) simp_all
      then show ?thesis using unf el fr2 by (auto intro: frame_trans)
    qed
  qed
qed

lemma for_i_refines:
  fixes width wgap wnel i :: "'s::len word"
  assumes "0 < w" "unat width = w" "w * n < 2 ^ LENGTH('s)" "0 < g" "unat wgap = w * g"
    and "unat wnel = w * n"
    and "w * n \<le> length (mem st)" "unat i = w * ii" "ii \<le> n" "sim w n st ab"
  shows "\<exists>st'. for_i cmp width wgap wnel i st = Some (Inr st') \<and> frame (w * n) st st' \<and>
           sim w n st' (for_elems cmp g n ii ab)"
  using assms(7-)
proof (induction "n - ii" arbitrary: ii i st ab)
  case 0
  then have "ii = n" by simp
  then have "\<not> i < wnel" using 0 assms by (simp add: word_less_nat_alt)
  then have "for_i cmp width wgap wnel i st = Some (Inr st)"
    by (subst for_i.simps) simp
  moreover have "for_elems cmp g n ii ab = ab"
    using \<open>ii = n\<close> by (subst for_elems.simps) simp
  ultimately show ?case using 0 by (simp add: frame_refl)
next
  case (Suc d)
  then have lt: "ii < n" by simp
  then have "w * ii < w * n" using \<open>0 < w\<close> by simp
  then have ilt: "i < wnel" using Suc.prems assms by (simp add: word_less_nat_alt)
  obtain st1 where st1: "walk_back cmp width wgap i st = Some (Inr st1)"
    "frame (w * n) st st1" "sim w n st1 (walk_elems cmp g ii ab)"
    using walk_back_refines [OF assms(1-5) Suc.prems(1,2) lt Suc.prems(4)] by blast
  have len1: "w * n \<le> length (mem st1)" using st1(2) Suc.prems(1) by (simp add: frame_def)
  have "w * ii + w \<le> w * n" using lt by (rule block_le)
  then have "w * ii + w < 2 ^ LENGTH('s)" using assms(3) by (rule le_less_trans)
  then have "unat i + unat width < 2 ^ LENGTH('s)" using assms(2) Suc.prems(2) by simp
  then have "unat (i + width) = unat i + unat width" by (rule unat_add_lem [THEN iffD1])
  then have ui: "unat (i + width) = w * Suc ii" using assms(2) Suc.prems(2) by simp
  have "\<exists>st'. for_i cmp width wgap wnel (i + width) st1 = Some (Inr st') \<and> frame (w * n) st1 st' \<and>
           sim w n st' (for_elems cmp g n (Suc ii) (walk_elems cmp g ii ab))"
    using Suc.hyps(2) lt len1 ui st1(3) by (intro Suc.hyps(1)) simp_all
  then obtain st' where st': "for_i cmp width wgap wnel (i + width) st1 = Some (Inr st')"
    "frame (w * n) st1 st'" "sim w n st' (for_elems cmp g n (Suc ii) (walk_elems cmp g ii ab))"
    by blast
  have "for_i cmp width wgap wnel i st = Some (Inr st')"
    by (subst for_i.simps) (simp add: ilt st1 st')
  moreover have "for_elems cmp g n ii ab = for_elems cmp g n (Suc ii) (walk_elems cmp g ii ab)"
    using lt by (subst for_elems.simps) simp
  ultimately show ?case using st' st1 by (auto intro: frame_trans)
qed

lemma pass_refines:
  fixes width wnel gap :: "'s::len word"
  assumes "0 < w" "unat width = w" "w * n < 2 ^ LENGTH('s)" "unat wnel = w * n"
    and "0 < g" "g < n" "unat gap = g"
    and "w * n \<le> length (mem st)" "sim w n st ab"
  shows "\<exists>st'. pass cmp width wnel gap st = Some (Inr st') \<and> frame (w * n) st st' \<and>
           sim w n st' (for_elems cmp g n g ab)"
proof -
  have lt: "w * g < w * n" using assms by simp
  then have "w * g < 2 ^ LENGTH('s)" using assms(3) by (rule less_trans)
  then have "unat width * unat gap < 2 ^ LENGTH('s)" using assms by simp
  then have "unat (width * gap) = unat width * unat gap" by (rule unat_mult_lem [THEN iffD1])
  then have wg: "unat (width * gap) = w * g" using assms by simp
  then have "width * gap < wnel" using lt assms by (simp add: word_less_nat_alt)
  then have "pass cmp width wnel gap st = for_i cmp width (width * gap) wnel (width * gap) st"
    by (simp add: pass_def Let_def)
  moreover have "\<exists>st'. for_i cmp width (width * gap) wnel (width * gap) st = Some (Inr st') \<and>
      frame (w * n) st st' \<and> sim w n st' (for_elems cmp g n g ab)"
    using assms wg by (intro for_i_refines) simp_all
  ultimately show ?thesis by simp
qed

lemma gap_loop_refines:
  fixes width wnel gap :: "'s::len word"
  assumes "0 < w" "unat width = w" "w * n < 2 ^ LENGTH('s)" "unat wnel = w * n"
    and "unat gap \<le> n" "w * n \<le> length (mem st)" "sim w n st ab"
  shows "\<exists>st'. gap_loop cmp width wnel gap st = Some (Inr st') \<and> frame (w * n) st st' \<and>
           sim w n st' (sort_elems cmp n (map unat (gap_seq gap)) ab)"
  using assms(5-)
proof (induction gap arbitrary: st ab rule: gap_seq.induct)
  case (1 gap)
  show ?case
  proof (cases "1 < gap")
    case False
    then have "gap_loop cmp width wnel gap st = Some (Inr st)"
      by (subst gap_loop.simps) simp
    moreover have "gap_seq gap = []" using False by (subst gap_seq.simps) simp
    ultimately show ?thesis using 1 by (simp add: sort_elems_def frame_refl)
  next
    case True
    define g where "g = next_gap gap"
    have "g < gap" unfolding g_def using True by (rule next_gap_less)
    then have gn: "unat g < n" using "1.prems"(1) by (simp add: word_less_nat_alt)
    have g0: "0 < unat g" using next_gap_pos [of gap] by (simp add: g_def word_less_nat_alt)
    obtain st1 where st1: "pass cmp width wnel g st = Some (Inr st1)" "frame (w * n) st st1"
      "sim w n st1 (for_elems cmp (unat g) n (unat g) ab)"
      using pass_refines [OF assms(1-4) g0 gn refl "1.prems"(2,3)] by blast
    have len1: "w * n \<le> length (mem st1)" using st1(2) "1.prems"(2) by (simp add: frame_def)
    have "\<exists>st'. gap_loop cmp width wnel g st1 = Some (Inr st') \<and> frame (w * n) st1 st' \<and>
           sim w n st' (sort_elems cmp n (map unat (gap_seq g)) (for_elems cmp (unat g) n (unat g) ab))"
      using True gn len1 st1(3) unfolding g_def by (intro "1.IH") simp_all
    then obtain st' where st': "gap_loop cmp width wnel g st1 = Some (Inr st')"
      "frame (w * n) st1 st'"
      "sim w n st' (sort_elems cmp n (map unat (gap_seq g)) (for_elems cmp (unat g) n (unat g) ab))"
      by blast
    have "gap_loop cmp width wnel gap st = Some (Inr st')"
      by (subst gap_loop.simps) (simp add: True Let_def st1 st' flip: g_def)
    moreover have "gap_seq gap = g # gap_seq g"
      using True by (subst gap_seq.simps) (simp add: g_def)
    ultimately show ?thesis using st' st1 by (auto simp: sort_elems_def intro: frame_trans)
  qed
qed

lemma qsort_refines:
  fixes nel width :: "'s::len word"
  assumes "0 < unat width" "unat width * unat nel < 2 ^ LENGTH('s)"
    and "unat width * unat nel \<le> length m"
  shows "\<exists>st'. qsort m nel width cmp = Some (Inr st') \<and>
           length (mem st') = length m \<and>
           drop (unat width * unat nel) (mem st') = drop (unat width * unat nel) m \<and>
           sim (unat width) (unat nel) st'
             (sort_elems cmp (unat nel) (map unat (gap_seq nel)) (elems (unat width) (unat nel) m, []))"
proof -
  define st where "st = (\<lparr>mem = m, trace = []\<rparr> :: 's word machine)"
  have wn: "unat (width * nel) = unat width * unat nel"
    using assms(2) by (rule unat_mult_lem [THEN iffD1])
  have "sim (unat width) (unat nel) st (elems (unat width) (unat nel) m, [])"
    by (simp add: sim_def st_def)
  moreover have "unat width * unat nel \<le> length (mem st)" using assms by (simp add: st_def)
  ultimately have "\<exists>st'. gap_loop cmp width (width * nel) nel st = Some (Inr st') \<and>
      frame (unat width * unat nel) st st' \<and>
      sim (unat width) (unat nel) st'
        (sort_elems cmp (unat nel) (map unat (gap_seq nel)) (elems (unat width) (unat nel) m, []))"
    using assms wn by (intro gap_loop_refines) simp_all
  then show ?thesis by (auto simp: qsort_def Let_def st_def frame_def)
qed

lemma qsort_result:
  fixes nel width :: "'s::len word"
  assumes "valid_call base nel width"
  shows "\<exists>st. qsort base nel width cmp = Some (Inr st) \<and>
           length (mem st) = length base \<and>
           drop (unat width * unat nel) (mem st) = drop (unat width * unat nel) base \<and>
           elems (unat width) (unat nel) (mem st) =
             fst (qsort_elems cmp nel (elems (unat width) (unat nel) base)) \<and>
           trace st = map (offset_event (unat width))
             (snd (qsort_elems cmp nel (elems (unat width) (unat nel) base)))"
proof -
  have v: "0 < unat width" "unat width * unat nel < 2 ^ LENGTH('s)"
    "unat width * unat nel \<le> length base"
    using assms by (simp_all add: valid_call_def)
  from qsort_refines [OF v, of cmp]
  obtain st where "qsort base nel width cmp = Some (Inr st)" "length (mem st) = length base"
    "drop (unat width * unat nel) (mem st) = drop (unat width * unat nel) base"
    "sim (unat width) (unat nel) st
       (sort_elems cmp (unat nel) (map unat (gap_seq nel)) (elems (unat width) (unat nel) base, []))"
    by blast
  then show ?thesis by (auto simp: sim_def qsort_elems_def)
qed

section \<open>Sorting on elements\<close>

subsection \<open>Permutation\<close>

lemma walk_elems_mset:
  "j < length xs \<Longrightarrow> mset (fst (walk_elems cmp g j (xs, tr))) = mset xs"
proof (induction j arbitrary: xs tr rule: less_induct)
  case (less j)
  show ?case
  proof (cases "j < g \<or> g = 0")
    case True
    then show ?thesis by (subst walk_elems.simps) simp
  next
    case False
    then have a: "j - g < j" "j - g < length xs" using less.prems by simp_all
    have sw: "mset (xs[j - g := xs ! j, j := xs ! (j - g)]) = mset xs"
      using a less.prems by (simp add: mset_swap)
    show ?thesis
    proof (cases "cmp (xs ! (j - g)) (xs ! j) \<le> 0")
      case True
      then show ?thesis using False by (subst walk_elems.simps) (simp add: Let_def)
    next
      case gt: False
      have "mset (fst (walk_elems cmp g (j - g) (xs[j - g := xs ! j, j := xs ! (j - g)], tr @ [Compare (j - g) j, Swap (j - g) j])))
          = mset (xs[j - g := xs ! j, j := xs ! (j - g)])"
        using a by (intro less.IH) simp_all
      then show ?thesis using False gt sw by (subst walk_elems.simps) (simp add: Let_def)
    qed
  qed
qed

lemma for_elems_mset:
  "n \<le> length (fst st) \<Longrightarrow> mset (fst (for_elems cmp g n i st)) = mset (fst st)"
proof (induction "n - i" arbitrary: i st)
  case 0
  then show ?case by (subst for_elems.simps) simp
next
  case (Suc d)
  obtain xs tr where st: "st = (xs, tr)" by (cases st)
  have i: "i < n" using Suc.hyps(2) by simp
  then have w: "mset (fst (walk_elems cmp g i st)) = mset (fst st)"
    using Suc.prems by (simp add: st walk_elems_mset)
  then have "length (fst (walk_elems cmp g i st)) = length (fst st)"
    by (metis size_mset)
  then have "mset (fst (for_elems cmp g n (Suc i) (walk_elems cmp g i st))) = mset (fst (walk_elems cmp g i st))"
    using Suc.hyps(2) Suc.prems by (intro Suc.hyps(1)) simp_all
  then show ?case using i w by (subst for_elems.simps) simp
qed

lemma sort_elems_mset:
  "n \<le> length (fst st) \<Longrightarrow> mset (fst (sort_elems cmp n gs st)) = mset (fst st)"
proof (induction gs arbitrary: st)
  case Nil
  then show ?case by (simp add: sort_elems_def)
next
  case (Cons g gs)
  have m: "mset (fst (for_elems cmp g n g st)) = mset (fst st)"
    using Cons.prems by (rule for_elems_mset)
  then have "length (fst (for_elems cmp g n g st)) = length (fst st)"
    by (metis size_mset)
  then have "mset (fst (sort_elems cmp n gs (for_elems cmp g n g st))) = mset (fst (for_elems cmp g n g st))"
    using Cons.prems by (intro Cons.IH) simp
  then show ?case using m by (simp add: sort_elems_def)
qed

lemma sort_elems_append:
  "sort_elems cmp n (gs @ hs) st = sort_elems cmp n hs (sort_elems cmp n gs st)"
  by (simp add: sort_elems_def)

lemma walk_elems_length:
  "j < length xs \<Longrightarrow> length (fst (walk_elems cmp g j (xs, tr))) = length xs"
  using walk_elems_mset [of j xs cmp g tr] by (metis size_mset)

lemma walk_elems_set:
  "j < length xs \<Longrightarrow> set (fst (walk_elems cmp g j (xs, tr))) = set xs"
  using walk_elems_mset [of j xs cmp g tr] by (rule mset_eq_setD)

lemma qsort_elems_mset:
  "unat nel \<le> length xs \<Longrightarrow> mset (fst (qsort_elems cmp nel xs)) = mset xs"
  unfolding qsort_elems_def using sort_elems_mset [of "unat nel" "(xs, [])"] by simp

subsection \<open>Order\<close>

lemma ordered_adjacent_nth:
  "ordered_adjacent cmp xs \<longleftrightarrow> (\<forall>i. Suc i < length xs \<longrightarrow> cmp (xs ! i) (xs ! Suc i) \<le> 0)"
proof (induction cmp xs rule: ordered_adjacent.induct)
  case (1 cmp x y ys)
  show ?case
  proof
    assume l: "ordered_adjacent cmp (x # y # ys)"
    show "\<forall>i. Suc i < length (x # y # ys) \<longrightarrow> cmp ((x # y # ys) ! i) ((x # y # ys) ! Suc i) \<le> 0"
    proof (intro allI impI)
      fix i assume "Suc i < length (x # y # ys)"
      then show "cmp ((x # y # ys) ! i) ((x # y # ys) ! Suc i) \<le> 0"
        using l 1 by (cases i) auto
    qed
  next
    assume r: "\<forall>i. Suc i < length (x # y # ys) \<longrightarrow> cmp ((x # y # ys) ! i) ((x # y # ys) ! Suc i) \<le> 0"
    then have "cmp x y \<le> 0" by (elim allE [of _ 0]) simp
    moreover have "\<forall>i. Suc i < length (y # ys) \<longrightarrow> cmp ((y # ys) ! i) ((y # ys) ! Suc i) \<le> 0"
    proof (intro allI impI)
      fix i assume "Suc i < length (y # ys)"
      then show "cmp ((y # ys) ! i) ((y # ys) ! Suc i) \<le> 0"
        using r by (elim allE [of _ "Suc i"]) simp
    qed
    ultimately show "ordered_adjacent cmp (x # y # ys)" using 1 by simp
  qed
qed simp_all

lemma swo_flip:
  "strict_weak_ordering cmp S \<Longrightarrow> x \<in> S \<Longrightarrow> y \<in> S \<Longrightarrow> (0 < cmp x y) = (cmp y x < 0)"
  unfolding strict_weak_ordering_def by blast

lemma swo_asym:
  "strict_weak_ordering cmp S \<Longrightarrow> x \<in> S \<Longrightarrow> y \<in> S \<Longrightarrow> 0 < cmp x y \<Longrightarrow> cmp y x \<le> 0"
  using swo_flip [of cmp S x y] by simp

lemma swo_zero_sym:
  assumes "strict_weak_ordering cmp S" "x \<in> S" "y \<in> S" "cmp x y = 0"
  shows "cmp y x = 0"
proof -
  have "(0 < cmp x y) = (cmp y x < 0)" using assms(1-3) by (rule swo_flip)
  moreover have "(0 < cmp y x) = (cmp x y < 0)" using assms(1,3,2) by (rule swo_flip)
  ultimately show ?thesis using assms(4) by simp
qed

lemma swo_le_trans:
  assumes swo: "strict_weak_ordering cmp S" and S: "x \<in> S" "y \<in> S" "z \<in> S"
    and xy: "cmp x y \<le> 0" and yz: "cmp y z \<le> 0"
  shows "cmp x z \<le> 0"
proof (rule ccontr)
  assume "\<not> cmp x z \<le> 0"
  then have "0 < cmp x z" by simp
  then have zx: "cmp z x < 0" using swo S by (simp add: swo_flip)
  have tr: "\<And>a b c. a \<in> S \<Longrightarrow> b \<in> S \<Longrightarrow> c \<in> S \<Longrightarrow> cmp a b < 0 \<Longrightarrow> cmp b c < 0 \<Longrightarrow> cmp a c < 0"
    using swo unfolding strict_weak_ordering_def by blast
  have eq: "\<And>a b c. a \<in> S \<Longrightarrow> b \<in> S \<Longrightarrow> c \<in> S \<Longrightarrow> cmp a b = 0 \<Longrightarrow> cmp b c = 0 \<Longrightarrow> cmp a c = 0"
    using swo unfolding strict_weak_ordering_def by blast
  have flip: "\<And>a b. a \<in> S \<Longrightarrow> b \<in> S \<Longrightarrow> cmp a b < 0 \<Longrightarrow> 0 < cmp b a"
    using swo by (simp add: swo_flip)
  consider "cmp x y < 0" | "cmp x y = 0" "cmp y z < 0" | "cmp x y = 0" "cmp y z = 0"
    using xy yz by linarith
  then show False
  proof cases
    case 1
    then have "cmp z y < 0" using zx S tr by blast
    then have "0 < cmp y z" using S flip by blast
    then show False using yz by simp
  next
    case 2
    then have "cmp y x < 0" using zx S tr by blast
    then have "0 < cmp x y" using S flip by blast
    then show False using 2 by simp
  next
    case 3
    then have "cmp x z = 0" using S eq by blast
    then show False using \<open>0 < cmp x z\<close> by simp
  qed
qed

lemma swo_by_key:
  fixes f :: "'a \<Rightarrow> int"
  assumes "\<And>x y. (cmp x y < 0) = (f x < f y)" "\<And>x y. (0 < cmp x y) = (f y < f x)"
  shows "strict_weak_ordering cmp S"
proof -
  have eq: "(cmp x y = 0) = (f x = f y)" for x y
    using assms(1) [of x y] assms(2) [of x y] by linarith
  show ?thesis
    unfolding strict_weak_ordering_def by (simp add: assms eq)
qed

lemma walk_elems_insert:
  assumes asym: "\<And>x y. x \<in> set xs \<Longrightarrow> y \<in> set xs \<Longrightarrow> 0 < cmp x y \<Longrightarrow> cmp y x \<le> 0"
    and "j \<le> i" "i < length xs"
    and "\<And>k. Suc k \<le> i \<Longrightarrow> Suc k \<noteq> j \<Longrightarrow> cmp (xs ! k) (xs ! Suc k) \<le> 0"
    and "0 < j \<Longrightarrow> Suc j \<le> i \<Longrightarrow> cmp (xs ! (j - 1)) (xs ! Suc j) \<le> 0"
  shows "\<forall>k. Suc k \<le> i \<longrightarrow>
           cmp (fst (walk_elems cmp 1 j (xs, tr)) ! k) (fst (walk_elems cmp 1 j (xs, tr)) ! Suc k) \<le> 0"
  using assms
proof (induction j arbitrary: xs tr)
  case 0
  have "walk_elems cmp 1 0 (xs, tr) = (xs, tr)" by (subst walk_elems.simps) simp
  then show ?case using 0 by simp
next
  case (Suc j)
  show ?case
  proof (cases "cmp (xs ! j) (xs ! Suc j) \<le> 0")
    case True
    then have "walk_elems cmp 1 (Suc j) (xs, tr) = (xs, tr @ [Compare j (Suc j)])"
      by (subst walk_elems.simps) (simp add: Let_def)
    moreover have "cmp (xs ! k) (xs ! Suc k) \<le> 0" if "Suc k \<le> i" for k
      using True Suc.prems(4) [of k] that by (cases "k = j") simp_all
    ultimately show ?thesis by simp
  next
    case False
    define ys where "ys = xs[j := xs ! Suc j, Suc j := xs ! j]"
    have unf: "walk_elems cmp 1 (Suc j) (xs, tr) = walk_elems cmp 1 j (ys, tr @ [Compare j (Suc j), Swap j (Suc j)])"
      using False by (subst walk_elems.simps) (simp add: Let_def ys_def)
    have len: "length ys = length xs" by (simp add: ys_def)
    have jl: "j < length xs" "Suc j < length xs" using Suc.prems(2,3) by simp_all
    have "mset ys = mset xs" unfolding ys_def using jl by (simp add: mset_swap)
    then have set: "set ys = set xs" by (rule mset_eq_setD)
    have ys_nth: "\<And>k. k < length xs \<Longrightarrow> ys ! k = (if k = Suc j then xs ! j else if k = j then xs ! Suc j else xs ! k)"
      by (simp add: ys_def nth_list_update)
    have sw: "cmp (xs ! Suc j) (xs ! j) \<le> 0"
      using False jl by (intro Suc.prems(1)) simp_all
    have "\<forall>k. Suc k \<le> i \<longrightarrow>
           cmp (fst (walk_elems cmp 1 j (ys, tr @ [Compare j (Suc j), Swap j (Suc j)])) ! k)
               (fst (walk_elems cmp 1 j (ys, tr @ [Compare j (Suc j), Swap j (Suc j)])) ! Suc k) \<le> 0"
    proof (rule Suc.IH)
      show "\<And>x y. x \<in> set ys \<Longrightarrow> y \<in> set ys \<Longrightarrow> 0 < cmp x y \<Longrightarrow> cmp y x \<le> 0"
        using Suc.prems(1) set by simp
      show "j \<le> i" using Suc.prems(2) by simp
      show "i < length ys" using Suc.prems(3) len by simp
    next
      fix k assume k: "Suc k \<le> i" "Suc k \<noteq> j"
      then have kl: "k < length xs" "Suc k < length xs" using Suc.prems(3) by simp_all
      consider "Suc k < j" | "k = j" | "k = Suc j" | "Suc j < k" using k by linarith
      then show "cmp (ys ! k) (ys ! Suc k) \<le> 0"
      proof cases
        case 1
        then show ?thesis using kl k Suc.prems(4) [of k] by (simp add: ys_nth)
      next
        case 2
        then show ?thesis using kl sw by (simp add: ys_nth)
      next
        case 3
        then show ?thesis using kl k Suc.prems(5) by (simp add: ys_nth)
      next
        case 4
        then show ?thesis using kl k Suc.prems(4) [of k] by (simp add: ys_nth)
      qed
    next
      assume j: "0 < j" "Suc j \<le> i"
      then have "cmp (xs ! (j - 1)) (xs ! j) \<le> 0"
        using Suc.prems(4) [of "j - 1"] by simp
      moreover have "j - 1 \<noteq> j" "j - 1 \<noteq> Suc j" "j - 1 < length xs" using j jl by simp_all
      ultimately show "cmp (ys ! (j - 1)) (ys ! Suc j) \<le> 0"
        using jl by (simp add: ys_nth)
    qed
    then show ?thesis using unf by simp
  qed
qed

lemma for_elems_1_sorted:
  assumes "\<And>x y. x \<in> set xs \<Longrightarrow> y \<in> set xs \<Longrightarrow> 0 < cmp x y \<Longrightarrow> cmp y x \<le> 0"
    and "\<And>k. Suc k < i \<Longrightarrow> cmp (xs ! k) (xs ! Suc k) \<le> 0"
  shows "ordered_adjacent cmp (fst (for_elems cmp 1 (length xs) i (xs, tr)))"
  using assms
proof (induction "length xs - i" arbitrary: i xs tr)
  case 0
  then have "for_elems cmp 1 (length xs) i (xs, tr) = (xs, tr)"
    by (subst for_elems.simps) simp
  moreover have "ordered_adjacent cmp xs"
    unfolding ordered_adjacent_nth using 0 by simp
  ultimately show ?case by simp
next
  case (Suc d)
  then have i: "i < length xs" by simp
  obtain ys tr' where w: "walk_elems cmp 1 i (xs, tr) = (ys, tr')"
    by (cases "walk_elems cmp 1 i (xs, tr)")
  have len: "length ys = length xs" using walk_elems_length [OF i, of cmp 1 tr] w by simp
  have set: "set ys = set xs" using walk_elems_set [OF i, of cmp 1 tr] w by simp
  have "\<forall>k. Suc k \<le> i \<longrightarrow>
           cmp (fst (walk_elems cmp 1 i (xs, tr)) ! k) (fst (walk_elems cmp 1 i (xs, tr)) ! Suc k) \<le> 0"
    using Suc.prems i by (intro walk_elems_insert) simp_all
  then have pre: "\<And>k. Suc k < Suc i \<Longrightarrow> cmp (ys ! k) (ys ! Suc k) \<le> 0"
    using w by simp
  have "ordered_adjacent cmp (fst (for_elems cmp 1 (length ys) (Suc i) (ys, tr')))"
  proof (rule Suc.hyps(1))
    show "d = length ys - Suc i" using Suc.hyps(2) len by simp
    show "\<And>x y. x \<in> set ys \<Longrightarrow> y \<in> set ys \<Longrightarrow> 0 < cmp x y \<Longrightarrow> cmp y x \<le> 0"
      using Suc.prems(1) set by simp
    show "\<And>k. Suc k < Suc i \<Longrightarrow> cmp (ys ! k) (ys ! Suc k) \<le> 0" by (rule pre)
  qed
  moreover have "for_elems cmp 1 (length xs) i (xs, tr) = for_elems cmp 1 (length xs) (Suc i) (ys, tr')"
    using i w by (subst for_elems.simps) simp
  ultimately show ?case using len by simp
qed

lemma sort_elems_sorted:
  assumes "\<And>x y. x \<in> set xs \<Longrightarrow> y \<in> set xs \<Longrightarrow> 0 < cmp x y \<Longrightarrow> cmp y x \<le> 0"
  shows "ordered_adjacent cmp (fst (sort_elems cmp (length xs) (gs @ [1]) (xs, tr)))"
proof -
  obtain ys tr' where s: "sort_elems cmp (length xs) gs (xs, tr) = (ys, tr')"
    by (cases "sort_elems cmp (length xs) gs (xs, tr)")
  have m: "mset ys = mset xs"
    using sort_elems_mset [of "length xs" "(xs, tr)" cmp gs] s by simp
  then have len: "length ys = length xs" by (metis size_mset)
  have set: "set ys = set xs" using m by (rule mset_eq_setD)
  have "ordered_adjacent cmp (fst (for_elems cmp 1 (length ys) 1 (ys, tr')))"
    using assms set by (intro for_elems_1_sorted) simp_all
  then show ?thesis
    using s len by (simp add: sort_elems_append) (simp add: sort_elems_def)
qed

lemma qsort_elems_sorted:
  assumes "\<And>x y. x \<in> set xs \<Longrightarrow> y \<in> set xs \<Longrightarrow> 0 < cmp x y \<Longrightarrow> cmp y x \<le> 0"
    and "length xs = unat nel"
  shows "ordered_adjacent cmp (fst (qsort_elems cmp nel xs))"
proof (cases "1 < nel")
  case True
  then obtain gs where "gap_seq nel = gs @ [1]" using gap_seq_last by blast
  then have "map unat (gap_seq nel) = map unat gs @ [1]" by simp
  then show ?thesis
    unfolding qsort_elems_def using sort_elems_sorted [of xs cmp "map unat gs" "[]"] assms by simp
next
  case False
  then have "gap_seq nel = []" by (subst gap_seq.simps) simp
  then have "fst (qsort_elems cmp nel xs) = xs" by (simp add: qsort_elems_def sort_elems_def)
  moreover have "length xs \<le> 1" using False assms(2) by (simp add: word_less_nat_alt)
  then have "ordered_adjacent cmp xs" by (simp add: ordered_adjacent_nth)
  ultimately show ?thesis by simp
qed

subsection \<open>A buffer in order\<close>

lemma ordered_all_pairs:
  assumes "strict_weak_ordering cmp (set xs)" "ordered_adjacent cmp xs"
  shows "a < b \<Longrightarrow> b < length xs \<Longrightarrow> cmp (xs ! a) (xs ! b) \<le> 0"
proof (induction b)
  case 0
  then show ?case by simp
next
  case (Suc b)
  have adj: "cmp (xs ! b) (xs ! Suc b) \<le> 0"
    using assms(2) Suc.prems(2) by (simp add: ordered_adjacent_nth)
  show ?case
  proof (cases "a = b")
    case True
    then show ?thesis using adj by simp
  next
    case False
    then have "cmp (xs ! a) (xs ! b) \<le> 0" using Suc by simp
    moreover have "xs ! a \<in> set xs" "xs ! b \<in> set xs" "xs ! Suc b \<in> set xs"
      using Suc.prems by simp_all
    ultimately show ?thesis using adj assms(1) swo_le_trans by metis
  qed
qed

lemma walk_elems_ordered:
  assumes "\<And>a b. a < b \<Longrightarrow> b < length xs \<Longrightarrow> cmp (xs ! a) (xs ! b) \<le> 0" "j < length xs"
  shows "fst (walk_elems cmp g j (xs, tr)) = xs \<and>
         no_swap (snd (walk_elems cmp g j (xs, tr))) = no_swap tr"
proof (cases "j < g \<or> g = 0")
  case True
  then show ?thesis by (subst (1 2) walk_elems.simps) simp
next
  case False
  then have "cmp (xs ! (j - g)) (xs ! j) \<le> 0" using assms by simp
  then show ?thesis using False
    by (subst (1 2) walk_elems.simps) (simp add: Let_def no_swap_def)
qed

lemma for_elems_ordered:
  assumes "\<And>a b. a < b \<Longrightarrow> b < length xs \<Longrightarrow> cmp (xs ! a) (xs ! b) \<le> 0" "n \<le> length xs"
  shows "fst (for_elems cmp g n i (xs, tr)) = xs \<and>
         no_swap (snd (for_elems cmp g n i (xs, tr))) = no_swap tr"
  using assms(2)
proof (induction "n - i" arbitrary: i tr)
  case 0
  then show ?case by (subst (1 2) for_elems.simps) simp
next
  case (Suc d)
  then have i: "i < n" "i < length xs" by simp_all
  obtain tr' where w: "walk_elems cmp g i (xs, tr) = (xs, tr')" "no_swap tr' = no_swap tr"
    using walk_elems_ordered [where xs = xs and cmp = cmp and j = i and g = g and tr = tr] assms(1) i(2)
    by (cases "walk_elems cmp g i (xs, tr)") simp
  have "fst (for_elems cmp g n (Suc i) (xs, tr')) = xs \<and>
         no_swap (snd (for_elems cmp g n (Suc i) (xs, tr'))) = no_swap tr'"
    using Suc by (intro Suc.hyps(1)) simp_all
  then show ?case using i w by (subst (1 2) for_elems.simps) simp
qed

lemma sort_elems_ordered:
  assumes "\<And>a b. a < b \<Longrightarrow> b < length xs \<Longrightarrow> cmp (xs ! a) (xs ! b) \<le> 0" "n \<le> length xs"
  shows "fst (sort_elems cmp n gs (xs, tr)) = xs \<and>
         no_swap (snd (sort_elems cmp n gs (xs, tr))) = no_swap tr"
proof (induction gs arbitrary: tr)
  case Nil
  then show ?case by (simp add: sort_elems_def)
next
  case (Cons g gs)
  obtain tr' where w: "for_elems cmp g n g (xs, tr) = (xs, tr')" "no_swap tr' = no_swap tr"
    using for_elems_ordered [where xs = xs and cmp = cmp and n = n and g = g and i = g and tr = tr] assms
    by (cases "for_elems cmp g n g (xs, tr)") simp
  then show ?case using Cons [of tr'] by (simp add: sort_elems_def)
qed

lemma no_swap_map: "no_swap (map (offset_event w) tr) = no_swap tr"
  by (induction tr) (auto simp: no_swap_def offset_event_def split: event.splits)

lemma qsort_elems_ordered:
  assumes "strict_weak_ordering cmp (set xs)" "ordered_adjacent cmp xs" "unat nel \<le> length xs"
  shows "fst (qsort_elems cmp nel xs) = xs \<and> no_swap (snd (qsort_elems cmp nel xs))"
proof -
  have pairs: "\<And>a b. a < b \<Longrightarrow> b < length xs \<Longrightarrow> cmp (xs ! a) (xs ! b) \<le> 0"
    using assms(1,2) by (rule ordered_all_pairs)
  have "fst (sort_elems cmp (unat nel) (map unat (gap_seq nel)) (xs, [])) = xs \<and>
      no_swap (snd (sort_elems cmp (unat nel) (map unat (gap_seq nel)) (xs, []))) = no_swap ([] :: nat event list)"
    by (rule sort_elems_ordered [where xs = xs and cmp = cmp and n = "unat nel"
        and gs = "map unat (gap_seq nel)" and tr = "[]", OF pairs assms(3)])
  then show ?thesis by (simp add: qsort_elems_def no_swap_def)
qed

subsection \<open>The events of a call\<close>







section \<open>Faults\<close>

lemma swap_bytes_fault: "swap_bytes a b s m \<noteq> Inl AssumeViolated"
proof (induction a b s m rule: swap_bytes.induct)
  case (1 a b s m)
  then show ?case by (subst swap_bytes.simps) (simp add: Let_def)
qed

lemma load_elem_fault: "load_elem m a width \<noteq> Inl AssumeViolated"
  by (simp add: load_elem_def)

lemma walk_back_fault:
  assumes "walk_back cmp width wgap j st = Some r"
  shows "r \<noteq> Inl AssumeViolated"
proof (rule walk_back.raw_induct [where P = "\<lambda>cmp width wgap j st r. r \<noteq> Inl AssumeViolated", OF _ assms])
  fix f :: "comparator \<Rightarrow> 'a word \<Rightarrow> 'a word \<Rightarrow> 'a word \<Rightarrow> 'a word machine \<Rightarrow> (fault + 'a word machine) option"
    and cmp width wgap j st r
  assume IH: "\<And>cmp width wgap j st r. f cmp width wgap j st = Some r \<Longrightarrow> r \<noteq> Inl AssumeViolated"
    and "(if j < wgap then Some (Inr st)
      else let j' = j - wgap; a = j'; b = a + wgap
           in case load_elem (mem st) a width of Inl e \<Rightarrow> Some (Inl e)
              | Inr x \<Rightarrow>
                  case load_elem (mem st) b width of Inl e \<Rightarrow> Some (Inl e)
                  | Inr y \<Rightarrow>
                      let st1 = st\<lparr>trace := trace st @ [Compare a b]\<rparr>
                      in if cmp x y \<le> 0 then Some (Inr st1)
                         else case swap_bytes a b width (mem st1) of
                              Inl e \<Rightarrow> Some (Inl e)
                              | Inr m' \<Rightarrow>
                                  f cmp width wgap j'
                                   (st1\<lparr>mem := m', trace := trace st1 @ [Swap a b]\<rparr>)) = Some r"
  then show "r \<noteq> Inl AssumeViolated"
    by (auto simp: Let_def swap_bytes_fault load_elem_fault split: if_splits sum.splits)
qed

lemma for_i_fault:
  assumes "for_i cmp width wgap wnel i st = Some r"
  shows "r \<noteq> Inl AssumeViolated"
proof (rule for_i.raw_induct [where P = "\<lambda>cmp width wgap wnel i st r. r \<noteq> Inl AssumeViolated", OF _ assms])
  fix f :: "comparator \<Rightarrow> 'a word \<Rightarrow> 'a word \<Rightarrow> 'a word \<Rightarrow> 'a word \<Rightarrow> 'a word machine \<Rightarrow> (fault + 'a word machine) option"
    and cmp width wgap wnel i st r
  assume IH: "\<And>cmp width wgap wnel i st r. f cmp width wgap wnel i st = Some r \<Longrightarrow> r \<noteq> Inl AssumeViolated"
    and body: "(if i < wnel
      then walk_back cmp width wgap i st \<bind>
           (\<lambda>r. case r of Inl e \<Rightarrow> Some (Inl e)
                | Inr st' \<Rightarrow> f cmp width wgap wnel (i + width) st')
      else Some (Inr st)) = Some r"
  show "r \<noteq> Inl AssumeViolated"
  proof (cases "i < wnel")
    case False
    then show ?thesis using body by auto
  next
    case True
    then obtain y where y: "walk_back cmp width wgap i st = Some y"
      "(case y of Inl e \<Rightarrow> Some (Inl e) | Inr st' \<Rightarrow> f cmp width wgap wnel (i + width) st') = Some r"
      using body by (auto simp: bind_eq_Some_conv)
    show ?thesis
    proof (cases y)
      case (Inl e)
      then show ?thesis using y walk_back_fault [OF y(1)] by auto
    next
      case (Inr st')
      then show ?thesis using y IH by auto
    qed
  qed
qed

lemma run_passes_fault:
  "\<forall>g\<in>set gs. width * g < wnel \<Longrightarrow> run_passes cmp width wnel gs st \<noteq> Some (Inl AssumeViolated)"
proof (induction gs arbitrary: st)
  case Nil
  then show ?case by simp
next
  case (Cons g gs)
  then have p: "pass cmp width wnel g st = for_i cmp width (width * g) wnel (width * g) st"
    by (simp add: pass_def Let_def)
  show ?case
  proof (cases "pass cmp width wnel g st")
    case None
    then show ?thesis by simp
  next
    case (Some r)
    then have "r \<noteq> Inl AssumeViolated" using p for_i_fault by metis
    then show ?thesis using Some Cons by (cases r) auto
  qed
qed

section \<open>The examples\<close>

lemma cmp_int32_swo: "strict_weak_ordering cmp_int32 S"
  by (rule swo_by_key [where f = int32_of]) (simp_all add: cmp_int32_def)

lemma cmp_key_swo: "strict_weak_ordering cmp_key S"
  by (rule swo_by_key [where f = "\<lambda>x. uint (hd x)"]) (simp_all add: cmp_key_def)

lemma example_input_valid: "valid_call example_input (6 :: 32 word) 4"
  by (simp add: valid_call_def example_input_def le32_def)

lemma sevens_input_valid: "valid_call sevens_input (4 :: 32 word) 4"
  by (simp add: valid_call_def sevens_input_def le32_def)

lemma tagged_input_valid: "valid_call tagged_input (5 :: 32 word) 2"
  by (simp add: valid_call_def tagged_input_def)

lemma sevens_ordered:
  "ordered_adjacent cmp_int32 (elems (unat (4 :: 32 word)) (unat (4 :: 32 word)) sevens_input)"
  by code_simp

lemma example_input_padded_valid:
  "valid_call (example_input @ pad) (6 :: 32 word) 4"
  using example_input_valid by (simp add: valid_call_def)

lemma example_input_padded_take:
  "take (unat (4 :: 32 word) * unat (6 :: 32 word)) (example_input @ pad) = example_input"
  by (simp add: example_input_def le32_def)

text \<open>
  Example 2 of the specification: four equal elements. The comparator is invoked three
  times, in the single pass with gap 1, and nothing is swapped.
\<close>

lemma qsort_example_2:
  "qsort sevens_input (4 :: 32 word) 4 cmp_int32 =
     Some (Inr \<lparr>mem = sevens_input, trace = [Compare 0 4, Compare 4 8, Compare 8 12]\<rparr>)"
  by code_simp

text \<open>
  Five records of two bytes, compared by their first byte: the run used to show that the
  sort is not stable.
\<close>

lemma tagged_input_elems:
  "elems 2 5 tagged_input = [[1, 10], [1, 11], [0, 12], [2, 13], [2, 14]]"
  by code_simp

lemma tagged_input_run:
  "\<exists>st. qsort tagged_input (5 :: 32 word) 2 cmp_key = Some (Inr st) \<and>
     elems 2 5 (mem st) = [[0, 12], [1, 11], [1, 10], [2, 13], [2, 14]]"
proof -
  have "qsort tagged_input (5 :: 32 word) 2 cmp_key =
      Some (Inr \<lparr>mem = [0, 12, 1, 11, 1, 10, 2, 13, 2, 14],
             trace = [Compare 0 4, Swap 0 4, Compare 2 6, Compare 4 8, Compare 0 2,
               Compare 2 4, Compare 4 6, Compare 6 8]\<rparr>)"
    by code_simp
  moreover have "elems 2 5 [0, 12, 1, 11, 1, 10, 2, 13, 2, 14 :: byte] =
      [[0, 12], [1, 11], [1, 10], [2, 13], [2, 14]]"
    by code_simp
  ultimately show ?thesis by simp
qed

text \<open>
  In a list of pairwise distinct elements every element has one position: two elements
  cannot be found in one order and in the other. So a call that leaves a buffer of
  distinct elements as it is does not change the relative order of any two of them.
\<close>

lemma distinct_order_unique:
  assumes "distinct xs" "i < j" "j < length xs" "xs ! i = x" "xs ! j = y"
    and "j' < i'" "i' < length xs" "xs ! i' = x" "xs ! j' = y"
  shows False
proof -
  have len: "i < length xs" "j' < length xs" using assms by simp_all
  have "xs ! i = xs ! i'" "xs ! j = xs ! j'" using assms by simp_all
  then have "i = i'" "j = j'"
    using assms(1,3,7) len by (simp_all add: nth_eq_iff_index_eq)
  then show False using assms(2,6) by simp
qed

section \<open>The claims\<close>

text \<open>
  Claim C1. After a valid call with a comparator that is a strict weak ordering on the
  elements of the buffer, the call returns and the buffer is sorted: for every adjacent
  pair of elements the comparator of (earlier, later) is at most 0, and so it is for
  every pair of an earlier and a later element.
\<close>

theorem qsort_sorts:
  fixes nel width :: "'s::len word"
  assumes "valid_call base nel width"
    and "strict_weak_ordering cmp (set (elems (unat width) (unat nel) base))"
  shows "\<exists>st. qsort base nel width cmp = Some (Inr st) \<and>
           (\<forall>i. Suc i < unat nel \<longrightarrow>
              cmp (elems (unat width) (unat nel) (mem st) ! i)
                  (elems (unat width) (unat nel) (mem st) ! Suc i) \<le> 0) \<and>
           (\<forall>i j. i < j \<and> j < unat nel \<longrightarrow>
              cmp (elems (unat width) (unat nel) (mem st) ! i)
                  (elems (unat width) (unat nel) (mem st) ! j) \<le> 0)"
proof -
  let ?xs = "elems (unat width) (unat nel) base"
  obtain st where st: "qsort base nel width cmp = Some (Inr st)"
    "elems (unat width) (unat nel) (mem st) = fst (qsort_elems cmp nel ?xs)"
    using qsort_result [OF assms(1), of cmp] by blast
  let ?ys = "elems (unat width) (unat nel) (mem st)"
  have "ordered_adjacent cmp (fst (qsort_elems cmp nel ?xs))"
    using assms(2) by (intro qsort_elems_sorted) (simp_all add: swo_asym)
  then have adj: "ordered_adjacent cmp ?ys"
    using st(2) by simp
  have "mset ?ys = mset ?xs"
    unfolding st(2) by (intro qsort_elems_mset) simp
  then have "set ?ys = set ?xs" by (rule mset_eq_setD)
  then have swo: "strict_weak_ordering cmp (set ?ys)" using assms(2) by simp
  have "cmp (?ys ! i) (?ys ! j) \<le> 0" if "i < j" "j < unat nel" for i j
    using ordered_all_pairs [OF swo adj that(1)] that(2) by simp
  moreover have "\<forall>i. Suc i < unat nel \<longrightarrow> cmp (?ys ! i) (?ys ! Suc i) \<le> 0"
    using adj by (simp add: ordered_adjacent_nth)
  ultimately show ?thesis using st(1) by blast
qed

theorem qsort_sorts_witness:
  "valid_call example_input (6 :: 32 word) 4 \<and>
   strict_weak_ordering cmp_int32 (set (elems (unat (4 :: 32 word)) (unat (6 :: 32 word)) example_input)) \<and>
   (\<exists>st. qsort example_input (6 :: 32 word) 4 cmp_int32 = Some (Inr st) \<and>
      (\<forall>i. Suc i < unat (6 :: 32 word) \<longrightarrow>
         cmp_int32 (elems (unat (4 :: 32 word)) (unat (6 :: 32 word)) (mem st) ! i)
                   (elems (unat (4 :: 32 word)) (unat (6 :: 32 word)) (mem st) ! Suc i) \<le> 0) \<and>
      (\<forall>i j. i < j \<and> j < unat (6 :: 32 word) \<longrightarrow>
         cmp_int32 (elems (unat (4 :: 32 word)) (unat (6 :: 32 word)) (mem st) ! i)
                   (elems (unat (4 :: 32 word)) (unat (6 :: 32 word)) (mem st) ! j) \<le> 0))"
  using qsort_sorts [OF example_input_valid cmp_int32_swo] example_input_valid cmp_int32_swo
  by blast

text \<open>
  Claim C2. A valid call returns, and the elements of the buffer after the call are a
  permutation of the elements before it (the same multiset of byte sequences); the
  memory after the buffer is as it was.
\<close>

theorem qsort_permutes:
  fixes nel width :: "'s::len word"
  assumes "valid_call base nel width"
  shows "\<exists>st. qsort base nel width cmp = Some (Inr st) \<and>
           mset (elems (unat width) (unat nel) (mem st)) = mset (elems (unat width) (unat nel) base) \<and>
           length (mem st) = length base \<and>
           drop (unat width * unat nel) (mem st) = drop (unat width * unat nel) base"
proof -
  obtain st where st: "qsort base nel width cmp = Some (Inr st)"
    "length (mem st) = length base"
    "drop (unat width * unat nel) (mem st) = drop (unat width * unat nel) base"
    "elems (unat width) (unat nel) (mem st) =
       fst (qsort_elems cmp nel (elems (unat width) (unat nel) base))"
    using qsort_result [OF assms(1), of cmp] by blast
  have "mset (fst (qsort_elems cmp nel (elems (unat width) (unat nel) base)))
      = mset (elems (unat width) (unat nel) base)"
    by (intro qsort_elems_mset) simp
  then show ?thesis using st by simp
qed

theorem qsort_permutes_witness:
  "valid_call example_input (6 :: 32 word) 4 \<and>
   (\<exists>st. qsort example_input (6 :: 32 word) 4 cmp_int32 = Some (Inr st) \<and>
      mset (elems (unat (4 :: 32 word)) (unat (6 :: 32 word)) (mem st)) =
        mset (elems (unat (4 :: 32 word)) (unat (6 :: 32 word)) example_input) \<and>
      length (mem st) = length example_input \<and>
      drop (unat (4 :: 32 word) * unat (6 :: 32 word)) (mem st) =
        drop (unat (4 :: 32 word) * unat (6 :: 32 word)) example_input)"
  using qsort_permutes [OF example_input_valid, of cmp_int32] example_input_valid
  by blast

text \<open>
  Claim C3. With \<open>nel = 0\<close> or \<open>nel = 1\<close> the call returns at once: the comparator is not
  invoked, nothing is swapped (the trace is empty) and memory is unchanged, whatever
  the buffer, the width and the comparator are.
\<close>

theorem qsort_degenerate:
  "qsort base 0 width cmp = Some (Inr \<lparr>mem = base, trace = []\<rparr>) \<and>
   qsort base 1 width cmp = Some (Inr \<lparr>mem = base, trace = []\<rparr>)"
proof -
  have "gap_loop cmp width wnel gap st = Some (Inr st)" if "\<not> 1 < gap"
    for wnel gap :: "'a::len word" and st
    using that by (subst gap_loop.simps) simp
  then show ?thesis by (simp add: qsort_def Let_def)
qed

text \<open>
  Claim C4. The gap starts at \<open>nel\<close>; each pass replaces it by \<open>(5 * gap - 1) div 11\<close>
  computed in 64 bits, or by 1 when that is 0. Where \<open>5 * gap\<close> does not overflow 64 bits,
  the new gap is the value of that formula and is smaller than the old one. The
  gaps of the passes strictly decrease from \<open>nel\<close>, end with 1, and are at most as many
  as \<^verbatim>\<open>size_t\<close> has bits: the outer loop is these passes, one after the other.
\<close>

theorem gap_sequence:
  fixes gap nel width :: "'s::len word"
  shows "(1 < gap \<and> 5 * unat gap < 2 ^ 64 \<longrightarrow>
            unat (next_gap gap) = max 1 ((5 * unat gap - 1) div 11) \<and> next_gap gap < gap) \<and>
         sorted_wrt (\<lambda>a b. b < a) (nel # gap_seq nel) \<and>
         (1 < nel \<longrightarrow> last (gap_seq nel) = 1) \<and>
         length (gap_seq nel) \<le> LENGTH('s) \<and>
         qsort base nel width cmp =
           run_passes cmp width (width * nel) (gap_seq nel) \<lparr>mem = base, trace = []\<rparr>"
proof -
  have "1 < nel \<longrightarrow> last (gap_seq nel) = 1"
    using gap_seq_last [of nel] by auto
  moreover have "qsort base nel width cmp =
      run_passes cmp width (width * nel) (gap_seq nel) \<lparr>mem = base, trace = []\<rparr>"
    by (simp add: qsort_def Let_def gap_loop_passes)
  ultimately show ?thesis
    using next_gap_formula [of gap] next_gap_less [of gap] gap_seq_decreasing [of nel]
      gap_seq_length [of nel]
    by blast
qed

theorem gap_sequence_witness:
  "(1 :: 32 word) < 6 \<and> 5 * unat (6 :: 32 word) < 2 ^ 64 \<and>
   unat (next_gap (6 :: 32 word)) = max 1 ((5 * unat (6 :: 32 word) - 1) div 11) \<and>
   next_gap (6 :: 32 word) < 6 \<and>
   sorted_wrt (\<lambda>a b. b < a) ((6 :: 32 word) # gap_seq 6) \<and>
   last (gap_seq (6 :: 32 word)) = 1 \<and>
   length (gap_seq (6 :: 32 word)) \<le> LENGTH(32) \<and>
   qsort example_input (6 :: 32 word) 4 cmp_int32 =
     run_passes cmp_int32 4 (4 * 6) (gap_seq 6) \<lparr>mem = example_input, trace = []\<rparr>"
proof -
  have "(1 :: 32 word) < 6" "5 * unat (6 :: 32 word) < 2 ^ 64" by simp_all
  then show ?thesis
    using gap_sequence [of "6 :: 32 word" 6 example_input 4 cmp_int32] by blast
qed

text \<open>
  Claim C5. With a comparator that is a strict weak ordering on the elements of the
  buffer: when the buffer is already in order, a valid call returns with memory
  unchanged byte for byte and with no swap in its trace; and sorting the result of a
  call once more changes nothing and swaps nothing.
\<close>

theorem qsort_idempotent:
  fixes nel width :: "'s::len word"
  assumes "valid_call base nel width"
    and "strict_weak_ordering cmp (set (elems (unat width) (unat nel) base))"
  shows "(ordered_adjacent cmp (elems (unat width) (unat nel) base) \<longrightarrow>
            (\<exists>st. qsort base nel width cmp = Some (Inr st) \<and> mem st = base \<and> no_swap (trace st))) \<and>
         (\<exists>st st'. qsort base nel width cmp = Some (Inr st) \<and>
            qsort (mem st) nel width cmp = Some (Inr st') \<and>
            mem st' = mem st \<and> no_swap (trace st'))"
proof -
  have unchanged: "\<exists>st. qsort b nel width cmp = Some (Inr st) \<and> mem st = b \<and> no_swap (trace st)"
    if v: "valid_call b nel width"
      and s: "strict_weak_ordering cmp (set (elems (unat width) (unat nel) b))"
      and o: "ordered_adjacent cmp (elems (unat width) (unat nel) b)" for b
  proof -
    obtain st where st: "qsort b nel width cmp = Some (Inr st)"
      "length (mem st) = length b"
      "drop (unat width * unat nel) (mem st) = drop (unat width * unat nel) b"
      "elems (unat width) (unat nel) (mem st) =
         fst (qsort_elems cmp nel (elems (unat width) (unat nel) b))"
      "trace st = map (offset_event (unat width))
         (snd (qsort_elems cmp nel (elems (unat width) (unat nel) b)))"
      using qsort_result [OF v, of cmp] by blast
    have q: "fst (qsort_elems cmp nel (elems (unat width) (unat nel) b)) = elems (unat width) (unat nel) b"
      "no_swap (snd (qsort_elems cmp nel (elems (unat width) (unat nel) b)))"
      using qsort_elems_ordered [OF s o, of nel] by simp_all
    have len: "unat width * unat nel \<le> length b" using v by (simp add: valid_call_def)
    have "elems (unat width) (unat nel) (mem st) = elems (unat width) (unat nel) b"
      using st(4) q(1) by simp
    with len st(2,3) have "mem st = b" by (rule mem_eqI)
    moreover have "no_swap (trace st)" using st(5) q(2) by (simp add: no_swap_map)
    ultimately show ?thesis using st(1) by blast
  qed
  obtain st where st: "qsort base nel width cmp = Some (Inr st)"
    "length (mem st) = length base"
    "elems (unat width) (unat nel) (mem st) =
       fst (qsort_elems cmp nel (elems (unat width) (unat nel) base))"
    using qsort_result [OF assms(1), of cmp] by blast
  have m: "mset (elems (unat width) (unat nel) (mem st)) = mset (elems (unat width) (unat nel) base)"
    unfolding st(3) by (intro qsort_elems_mset) simp
  then have "set (elems (unat width) (unat nel) (mem st)) = set (elems (unat width) (unat nel) base)"
    by (rule mset_eq_setD)
  then have s': "strict_weak_ordering cmp (set (elems (unat width) (unat nel) (mem st)))"
    using assms(2) by simp
  have o': "ordered_adjacent cmp (elems (unat width) (unat nel) (mem st))"
    unfolding st(3) using assms(2) by (intro qsort_elems_sorted) (simp_all add: swo_asym)
  have v': "valid_call (mem st) nel width"
    using assms(1) st(2) by (simp add: valid_call_def)
  from unchanged [OF v' s' o'] st(1) have
    "\<exists>st st'. qsort base nel width cmp = Some (Inr st) \<and>
            qsort (mem st) nel width cmp = Some (Inr st') \<and>
            mem st' = mem st \<and> no_swap (trace st')"
    by blast
  then show ?thesis using unchanged [OF assms] by blast
qed

theorem qsort_idempotent_witness:
  "valid_call sevens_input (4 :: 32 word) 4 \<and>
   strict_weak_ordering cmp_int32 (set (elems (unat (4 :: 32 word)) (unat (4 :: 32 word)) sevens_input)) \<and>
   ordered_adjacent cmp_int32 (elems (unat (4 :: 32 word)) (unat (4 :: 32 word)) sevens_input) \<and>
   (\<exists>st. qsort sevens_input (4 :: 32 word) 4 cmp_int32 = Some (Inr st) \<and>
      mem st = sevens_input \<and> no_swap (trace st)) \<and>
   (\<exists>st st'. qsort sevens_input (4 :: 32 word) 4 cmp_int32 = Some (Inr st) \<and>
      qsort (mem st) (4 :: 32 word) 4 cmp_int32 = Some (Inr st') \<and>
      mem st' = mem st \<and> no_swap (trace st'))"
  using qsort_idempotent [OF sevens_input_valid cmp_int32_swo] sevens_input_valid cmp_int32_swo
    sevens_ordered
  by blast

text \<open>
  Claim C6. Example 1 of the specification: six 32-bit integers 5, 3, 8, 1, 9, 2 of width
  4 with the ascending comparator are left as 1, 2, 3, 5, 8, 9. The trace shows the
  passes with gap 2 (byte offsets 8 apart) and gap 1.
\<close>

theorem qsort_example_1:
  "qsort (concat (map le32 [5, 3, 8, 1, 9, 2])) (6 :: 32 word) 4 cmp_int32 =
     Some (Inr \<lparr>mem = concat (map le32 [1, 2, 3, 5, 8, 9]),
                trace =
                  [Compare 0 8, Compare 4 12, Swap 4 12, Compare 8 16,
                   Compare 12 20, Swap 12 20, Compare 4 12, Compare 0 4, Swap 0 4,
                   Compare 4 8, Compare 8 12, Swap 8 12, Compare 4 8, Swap 4 8,
                   Compare 0 4, Compare 12 16, Compare 16 20, Swap 16 20,
                   Compare 12 16, Swap 12 16, Compare 8 12, Swap 8 12,
                   Compare 4 8]\<rparr>)"
  by code_simp

text \<open>
  Claim C7. When the width is not zero and \<^verbatim>\<open>width * nel\<close> does not overflow, every gap of
  a pass is smaller than \<open>nel\<close> and its byte size \<^verbatim>\<open>wgap\<close> is smaller than \<^verbatim>\<open>wnel\<close>: the
  condition of \<^verbatim>\<open>__builtin_assume\<close> holds in every pass, and no call ends in the fault
  \<open>AssumeViolated\<close>, whatever the memory and the comparator are.
\<close>

theorem assume_holds:
  fixes nel width :: "'s::len word"
  assumes "0 < unat width" "unat width * unat nel < 2 ^ LENGTH('s)"
  shows "(\<forall>g\<in>set (gap_seq nel). g < nel \<and> width * g < width * nel) \<and>
         qsort base nel width cmp \<noteq> Some (Inl AssumeViolated)"
proof -
  have wn: "unat (width * nel) = unat width * unat nel"
    using assms(2) by (rule unat_mult_lem [THEN iffD1])
  have g: "g < nel \<and> width * g < width * nel" if "g \<in> set (gap_seq nel)" for g
  proof -
    have lt: "g < nel" using gap_seq_less [OF that] by simp
    then have "unat width * unat g < unat width * unat nel"
      using assms(1) by (simp add: word_less_nat_alt)
    moreover from this have "unat width * unat g < 2 ^ LENGTH('s)"
      using assms(2) by (rule less_trans)
    then have "unat (width * g) = unat width * unat g" by (rule unat_mult_lem [THEN iffD1])
    ultimately show ?thesis using lt wn by (simp add: word_less_nat_alt)
  qed
  then have "run_passes cmp width (width * nel) (gap_seq nel) \<lparr>mem = base, trace = []\<rparr>
      \<noteq> Some (Inl AssumeViolated)"
    by (intro run_passes_fault) simp
  then show ?thesis using g by (simp add: qsort_def Let_def gap_loop_passes)
qed

theorem assume_holds_witness:
  "0 < unat (4 :: 32 word) \<and> unat (4 :: 32 word) * unat (6 :: 32 word) < 2 ^ LENGTH(32) \<and>
   list_all (\<lambda>g. g < 6 \<and> 4 * g < 4 * 6) (gap_seq (6 :: 32 word)) \<and>
   qsort example_input (6 :: 32 word) 4 cmp_int32 \<noteq> Some (Inl AssumeViolated)"
proof -
  have h: "0 < unat (4 :: 32 word)" "unat (4 :: 32 word) * unat (6 :: 32 word) < 2 ^ LENGTH(32)"
    by simp_all
  show ?thesis
    using assume_holds [OF h, of example_input cmp_int32] h by (simp add: list_all_iff)
qed

text \<open>
  Claim C8. The sort is not stable: there are a valid call with a comparator that is a
  strict weak ordering, on a buffer whose elements are pairwise distinct (so that each
  element has one position, before the call and after it), and two elements \<open>x\<close> and \<open>y\<close>
  of the buffer that compare equal, such that \<open>x\<close> is before \<open>y\<close> before the call and
  after \<open>y\<close> after it. A call that leaves the buffer as it is cannot meet this. The call
  is the one on the five tagged records: the pass with gap 2 swaps \<open>[1, 10]\<close> with
  \<open>[0, 12]\<close>, over \<open>[1, 11]\<close>.
\<close>

theorem qsort_not_stable:
  "\<exists>base (nel :: 32 word) width cmp x y.
     valid_call base nel width \<and> strict_weak_ordering cmp UNIV \<and>
     distinct (elems (unat width) (unat nel) base) \<and> cmp x y = 0 \<and> x \<noteq> y \<and>
     (\<exists>i j. i < j \<and> j < unat nel \<and>
        elems (unat width) (unat nel) base ! i = x \<and>
        elems (unat width) (unat nel) base ! j = y) \<and>
     (\<exists>st i j. qsort base nel width cmp = Some (Inr st) \<and>
        distinct (elems (unat width) (unat nel) (mem st)) \<and> j < i \<and> i < unat nel \<and>
        elems (unat width) (unat nel) (mem st) ! i = x \<and>
        elems (unat width) (unat nel) (mem st) ! j = y)"
proof -
  obtain st where st: "qsort tagged_input (5 :: 32 word) 2 cmp_key = Some (Inr st)"
    "elems 2 5 (mem st) = [[0, 12], [1, 11], [1, 10], [2, 13], [2, 14]]"
    using tagged_input_run by blast
  have u: "unat (2 :: 32 word) = 2" "unat (5 :: 32 word) = 5" by simp_all
  have "\<exists>i j. i < j \<and> j < unat (5 :: 32 word) \<and>
        elems (unat (2 :: 32 word)) (unat (5 :: 32 word)) tagged_input ! i = [1, 10] \<and>
        elems (unat (2 :: 32 word)) (unat (5 :: 32 word)) tagged_input ! j = [1, 11]"
    unfolding u tagged_input_elems by (rule exI [of _ 0], rule exI [of _ 1]) simp
  moreover have "\<exists>st i j. qsort tagged_input (5 :: 32 word) 2 cmp_key = Some (Inr st) \<and>
        distinct (elems (unat (2 :: 32 word)) (unat (5 :: 32 word)) (mem st)) \<and>
        j < i \<and> i < unat (5 :: 32 word) \<and>
        elems (unat (2 :: 32 word)) (unat (5 :: 32 word)) (mem st) ! i = [1, 10] \<and>
        elems (unat (2 :: 32 word)) (unat (5 :: 32 word)) (mem st) ! j = [1, 11]"
    unfolding u using st by (intro exI [of _ st] exI [of _ 2] exI [of _ 1]) simp
  moreover have "distinct (elems (unat (2 :: 32 word)) (unat (5 :: 32 word)) tagged_input)"
    unfolding u tagged_input_elems by simp
  moreover have "[1, 10] \<noteq> [1, 11 :: byte]" by simp
  moreover have "cmp_key [1, 10] [1, 11] = 0" by (simp add: cmp_key_def)
  ultimately show ?thesis using tagged_input_valid cmp_key_swo [of UNIV] by blast
qed

theorem qsort_not_stable_witness:
  "strict_weak_ordering cmp_key UNIV \<and> valid_call tagged_input (5 :: 32 word) 2 \<and>
   cmp_key [1, 10] [1, 11] = 0 \<and>
   elems 2 5 tagged_input = [[1, 10], [1, 11], [0, 12], [2, 13], [2, 14]] \<and>
   (\<exists>st. qsort tagged_input (5 :: 32 word) 2 cmp_key = Some (Inr st) \<and>
      elems 2 5 (mem st) = [[0, 12], [1, 11], [1, 10], [2, 13], [2, 14]]) \<and>
   (\<exists>base (nel :: 32 word) width cmp x y.
     valid_call base nel width \<and> strict_weak_ordering cmp UNIV \<and>
     distinct (elems (unat width) (unat nel) base) \<and> cmp x y = 0 \<and> x \<noteq> y \<and>
     (\<exists>i j. i < j \<and> j < unat nel \<and>
        elems (unat width) (unat nel) base ! i = x \<and>
        elems (unat width) (unat nel) base ! j = y) \<and>
     (\<exists>st i j. qsort base nel width cmp = Some (Inr st) \<and>
        distinct (elems (unat width) (unat nel) (mem st)) \<and> j < i \<and> i < unat nel \<and>
        elems (unat width) (unat nel) (mem st) ! i = x \<and>
        elems (unat width) (unat nel) (mem st) ! j = y))"
proof -
  have "cmp_key [1, 10] [1, 11] = 0" by (simp add: cmp_key_def)
  moreover have "\<exists>st. qsort tagged_input (5 :: 32 word) 2 cmp_key = Some (Inr st) \<and>
      elems 2 5 (mem st) = [[0, 12], [1, 11], [1, 10], [2, 13], [2, 14]]"
    by (rule tagged_input_run)
  ultimately show ?thesis
    using qsort_not_stable cmp_key_swo [of UNIV] tagged_input_valid tagged_input_elems
    by (intro conjI)
qed



text \<open>
  Claim C10. The result of a valid call is a function of the bytes of the buffer, of
  \<open>nel\<close>, of the width and of the comparator alone: two calls on memories that agree on
  the buffer (and may differ after it) return buffers with the same bytes and the same
  sequence of comparisons and swaps, at the same offsets.
\<close>

theorem qsort_deterministic:
  fixes nel width :: "'s::len word"
  assumes "valid_call base1 nel width" "valid_call base2 nel width"
    and "take (unat width * unat nel) base1 = take (unat width * unat nel) base2"
  shows "\<exists>st1 st2. qsort base1 nel width cmp = Some (Inr st1) \<and>
           qsort base2 nel width cmp = Some (Inr st2) \<and>
           take (unat width * unat nel) (mem st1) = take (unat width * unat nel) (mem st2) \<and>
           trace st1 = trace st2"
proof -
  let ?w = "unat width" and ?n = "unat nel"
  have same: "elems ?w ?n base1 = elems ?w ?n base2"
    using assms(3) elems_take [of ?w ?n base1] elems_take [of ?w ?n base2] by simp
  obtain st1 where st1: "qsort base1 nel width cmp = Some (Inr st1)"
    "length (mem st1) = length base1"
    "elems ?w ?n (mem st1) = fst (qsort_elems cmp nel (elems ?w ?n base1))"
    "trace st1 = map (offset_event ?w) (snd (qsort_elems cmp nel (elems ?w ?n base1)))"
    using qsort_result [OF assms(1), of cmp] by blast
  obtain st2 where st2: "qsort base2 nel width cmp = Some (Inr st2)"
    "length (mem st2) = length base2"
    "elems ?w ?n (mem st2) = fst (qsort_elems cmp nel (elems ?w ?n base2))"
    "trace st2 = map (offset_event ?w) (snd (qsort_elems cmp nel (elems ?w ?n base2)))"
    using qsort_result [OF assms(2), of cmp] by blast
  have l: "?w * ?n \<le> length (mem st1)" "?w * ?n \<le> length (mem st2)"
    using assms(1,2) st1(2) st2(2) by (simp_all add: valid_call_def)
  have "take (?w * ?n) (mem st1) = concat (elems ?w ?n (mem st1))"
    using l(1) by (simp add: concat_elems)
  also have "\<dots> = concat (elems ?w ?n (mem st2))" using st1(3) st2(3) same by simp
  also have "\<dots> = take (?w * ?n) (mem st2)" using l(2) by (simp add: concat_elems)
  finally have "take (?w * ?n) (mem st1) = take (?w * ?n) (mem st2)" .
  moreover have "trace st1 = trace st2" using st1(4) st2(4) same by simp
  ultimately show ?thesis using st1(1) st2(1) by blast
qed

theorem qsort_deterministic_witness:
  "valid_call (example_input @ [170]) (6 :: 32 word) 4 \<and>
   valid_call (example_input @ [187, 204]) (6 :: 32 word) 4 \<and>
   take (unat (4 :: 32 word) * unat (6 :: 32 word)) (example_input @ [170]) =
     take (unat (4 :: 32 word) * unat (6 :: 32 word)) (example_input @ [187, 204]) \<and>
   (\<exists>st1 st2. qsort (example_input @ [170]) (6 :: 32 word) 4 cmp_int32 = Some (Inr st1) \<and>
      qsort (example_input @ [187, 204]) (6 :: 32 word) 4 cmp_int32 = Some (Inr st2) \<and>
      take (unat (4 :: 32 word) * unat (6 :: 32 word)) (mem st1) =
        take (unat (4 :: 32 word) * unat (6 :: 32 word)) (mem st2) \<and>
      trace st1 = trace st2)"
proof -
  have t: "take (unat (4 :: 32 word) * unat (6 :: 32 word)) (example_input @ [170]) =
     take (unat (4 :: 32 word) * unat (6 :: 32 word)) (example_input @ [187, 204])"
    by (simp only: example_input_padded_take)
  show ?thesis
    using qsort_deterministic [OF example_input_padded_valid example_input_padded_valid t, of cmp_int32]
      example_input_padded_valid t
    by blast
qed

end
